theory Spec2Isabelle
  imports Main "HOL-Library.Word"
begin

section \<open>Common ground: sizes, outcomes, contiguous copies\<close>

text \<open>
  Both containers of namespace \<open>cc\<close> derive from \<open>std::array<Tp, Nm>\<close> and do all their
  index arithmetic in \<open>std::size_t\<close>, an unsigned machine integer whose \<open>+\<close> and \<open>-\<close> wrap
  around. It is modelled as a 64-bit word. The template parameter \<open>Nm\<close> (what
  \<open>max_size()\<close> returns) is the first argument of every operation that reads it.
\<close>

type_synonym size_t = "64 word"

text \<open>
  An operation either returns a value and leaves a new state, or throws
  \<open>std::out_of_range\<close> (the state is the one at the throw), or runs into behaviour the
  language leaves undefined: an unchecked \<open>operator[]\<close> or pointer range outside the array, or
  a remainder by zero.
\<close>

datatype ('r, 's) outcome = Returns 'r 's | Out_Of_Range 's | Undefined

text \<open>
  \<open>std::copy(first, last, dest)\<close> writing into an array: one element after the other,
  \<open>d\<close> being the index of \<open>dest\<close>.
\<close>

fun copy_to :: "'a list \<Rightarrow> nat \<Rightarrow> 'a list \<Rightarrow> 'a list" where
  "copy_to [] d dst = dst"
| "copy_to (x # xs) d dst = copy_to xs (Suc d) (dst[d := x])"

section \<open>\<open>cc::buffer\<close>\<close>

record 'a buffer =
  buf_data :: "'a list"
  m_used :: size_t

definition buffer_init :: "'a list \<Rightarrow> 'a buffer" where
  "buffer_init arr = \<lparr>buf_data = arr, m_used = 0\<rparr>"

definition buffer_reset :: "size_t \<Rightarrow> 'a buffer \<Rightarrow> 'a buffer" where
  "buffer_reset n b = b\<lparr>m_used := n\<rparr>"

definition buffer_size :: "'a buffer \<Rightarrow> size_t" where
  "buffer_size b = m_used b"

definition buffer_empty :: "'a buffer \<Rightarrow> bool" where
  "buffer_empty b \<longleftrightarrow> buffer_size b = 0"

definition buffer_free :: "size_t \<Rightarrow> 'a buffer \<Rightarrow> size_t" where
  "buffer_free Nm b = Nm - m_used b"

text \<open>
  \<open>get\<close> throws by its own test \<open>n > m_used\<close>, and otherwise through \<open>std::array::at\<close>,
  which throws \<open>std::out_of_range\<close> when \<open>n >= Nm\<close>.
\<close>

definition buffer_get :: "size_t \<Rightarrow> 'a buffer \<Rightarrow> size_t \<Rightarrow> ('a, 'a buffer) outcome" where
  "buffer_get Nm b n =
     (if n > m_used b then Out_Of_Range b
      else if n \<ge> Nm then Out_Of_Range b
      else Returns (buf_data b ! unat n) b)"

definition buffer_assign :: "size_t \<Rightarrow> size_t \<Rightarrow> 'a \<Rightarrow> 'a buffer \<Rightarrow> (unit, 'a buffer) outcome" where
  "buffer_assign Nm n v b =
     (if n \<ge> Nm then Out_Of_Range b
      else Returns () (b\<lparr>buf_data := (buf_data b)[unat n := v],
                         m_used := max (m_used b) (n + 1)\<rparr>))"

definition buffer_push_back :: "size_t \<Rightarrow> 'a \<Rightarrow> 'a buffer \<Rightarrow> (unit, 'a buffer) outcome" where
  "buffer_push_back Nm v b =
     (if m_used b \<ge> Nm then Out_Of_Range b
      else Returns () (b\<lparr>buf_data := (buf_data b)[unat (m_used b) := v],
                         m_used := m_used b + 1\<rparr>))"

definition buffer_pop_back :: "size_t \<Rightarrow> 'a buffer \<Rightarrow> ('a, 'a buffer) outcome" where
  "buffer_pop_back Nm b =
     (if m_used b = 0 then Out_Of_Range b
      else if m_used b - 1 \<ge> Nm then Out_Of_Range b
      else Returns (buf_data b ! unat (m_used b - 1)) (b\<lparr>m_used := m_used b - 1\<rparr>))"

section \<open>\<open>cc::fifo\<close>\<close>

text \<open>
  The fifo of \<open>include/cc/fifo.hxx\<close>. Its two cursors are \<open>fifo::iterator\<close> objects that
  wrap a \<open>std::size_t\<close> index \<open>m_index\<close> and convert to it; the record keeps the index.
\<close>

record 'a fifo =
  fifo_data :: "'a list"
  m_head :: size_t
  m_tail :: size_t

definition fifo_init :: "'a list \<Rightarrow> 'a fifo" where
  "fifo_init arr = \<lparr>fifo_data = arr, m_head = 0, m_tail = 0\<rparr>"

definition fifo_clear :: "'a fifo \<Rightarrow> 'a fifo" where
  "fifo_clear s = s\<lparr>m_tail := 0, m_head := 0\<rparr>"

definition fifo_size :: "'a fifo \<Rightarrow> size_t" where
  "fifo_size s = m_head s - m_tail s"

definition fifo_empty :: "'a fifo \<Rightarrow> bool" where
  "fifo_empty s \<longleftrightarrow> m_head s = m_tail s"

definition fifo_free :: "size_t \<Rightarrow> 'a fifo \<Rightarrow> size_t" where
  "fifo_free Nm s = Nm - fifo_size s"

definition fifo_full :: "size_t \<Rightarrow> 'a fifo \<Rightarrow> bool" where
  "fifo_full Nm s \<longleftrightarrow> m_head s = m_tail s + Nm"

text \<open>\<open>m_head % max_size()\<close>; its callers below rule out \<open>Nm = 0\<close> first.\<close>

definition head_modulo :: "size_t \<Rightarrow> 'a fifo \<Rightarrow> size_t" where
  "head_modulo Nm s = m_head s mod Nm"

definition increment_tail :: "size_t \<Rightarrow> size_t \<Rightarrow> 'a fifo \<Rightarrow> 'a fifo" where
  "increment_tail Nm incr s =
     (let s1 = s\<lparr>m_tail := m_tail s + incr\<rparr>
      in if m_tail s1 \<ge> Nm
         then s1\<lparr>m_tail := m_tail s1 - Nm, m_head := m_head s1 - Nm\<rparr>
         else s1)"

definition fifo_push :: "size_t \<Rightarrow> 'a \<Rightarrow> 'a fifo \<Rightarrow> (unit, 'a fifo) outcome" where
  "fifo_push Nm v s =
     (if fifo_full Nm s then Out_Of_Range s
      else if Nm = 0 then Undefined
      else Returns () (s\<lparr>fifo_data := (fifo_data s)[unat (head_modulo Nm s) := v],
                         m_head := m_head s + 1\<rparr>))"

text \<open>\<open>this->operator[](m_tail)\<close> is unchecked: outside the array it is undefined.\<close>

definition fifo_pop :: "size_t \<Rightarrow> 'a fifo \<Rightarrow> ('a, 'a fifo) outcome" where
  "fifo_pop Nm s =
     (if fifo_empty s then Out_Of_Range s
      else if m_tail s \<ge> Nm then Undefined
      else Returns (fifo_data s ! unat (m_tail s)) (increment_tail Nm 1 s))"

text \<open>
  \<open>push_list(other_begin, other_end)\<close>: the source range is the list \<open>vals\<close>, and
  \<open>n = other_end - other_begin\<close> its length as a \<open>size_t\<close>. The first \<open>std::copy\<close> stays
  inside the array since \<open>n1 \<le> Nm - head_modulo()\<close>; the second writes the \<open>n - n1\<close>
  elements of \<open>[other_begin + n1, other_begin + n)\<close> from index 0.
\<close>

definition fifo_push_list :: "size_t \<Rightarrow> 'a list \<Rightarrow> 'a fifo \<Rightarrow> (unit, 'a fifo) outcome" where
  "fifo_push_list Nm vals s =
     (let n = (of_nat (length vals) :: size_t)
      in if fifo_free Nm s < n then Out_Of_Range s
         else if Nm = 0 then Undefined
         else
           let n1 = min n (Nm - head_modulo Nm s);
               d1 = copy_to (take (unat n1) vals) (unat (head_modulo Nm s)) (fifo_data s);
               n2 = n - n1
           in if unat n2 > unat Nm then Undefined
              else Returns () (s\<lparr>fifo_data := copy_to (take (unat n2) (drop (unat n1) vals)) 0 d1,
                                 m_head := m_head s + n\<rparr>))"

text \<open>
  \<open>pop_list(other_begin, n)\<close>: the value returned is what the two \<open>std::copy\<close> calls write to
  \<open>other_begin[0]\<close>, \<open>other_begin[1]\<close>, ... in this order. A source range that leaves the
  array is undefined.
\<close>

definition fifo_pop_list :: "size_t \<Rightarrow> size_t \<Rightarrow> 'a fifo \<Rightarrow> ('a list, 'a fifo) outcome" where
  "fifo_pop_list Nm n0 s =
     (if n0 > 0 \<and> n0 > fifo_size s then Out_Of_Range s
      else
        let n = (if n0 = 0 then fifo_size s else n0);
            n1 = min n (Nm - m_tail s)
        in if unat (m_tail s) + unat n1 > unat Nm then Undefined
           else
             let run1 = take (unat n1) (drop (unat (m_tail s)) (fifo_data s));
                 n2 = n - n1
             in if unat n2 > unat Nm then Undefined
                else Returns (run1 @ take (unat n2) (fifo_data s)) (increment_tail Nm n s))"

text \<open>\<open>begin()\<close> returns a copy of \<open>m_tail\<close>; \<open>end()\<close> adds \<open>size()\<close> to \<open>m_tail\<close> and returns \<open>m_head\<close>.\<close>

definition fifo_begin :: "'a fifo \<Rightarrow> size_t \<times> 'a fifo" where
  "fifo_begin s = (m_tail s, s)"

definition fifo_end :: "'a fifo \<Rightarrow> size_t \<times> 'a fifo" where
  "fifo_end s = (m_head s, s\<lparr>m_tail := m_tail s + fifo_size s\<rparr>)"

text \<open>\<open>iterator::operator*\<close>: \<open>m_array[m_index % Nm]\<close>.\<close>

definition iterator_deref :: "size_t \<Rightarrow> 'a fifo \<Rightarrow> size_t \<Rightarrow> 'a" where
  "iterator_deref Nm s i = fifo_data s ! unat (i mod Nm)"

text \<open>
  The second \<open>fifo\<close> class of the same header keeps plain \<open>std::size_t\<close> cursors, and its
  \<open>pop\<close> resets \<open>m_tail\<close> to 0 instead of calling \<open>increment_tail\<close>.
\<close>

definition fifo_pop_alt :: "size_t \<Rightarrow> 'a fifo \<Rightarrow> ('a, 'a fifo) outcome" where
  "fifo_pop_alt Nm s =
     (if fifo_empty s then Out_Of_Range s
      else if m_tail s \<ge> Nm then Undefined
      else
        let v = fifo_data s ! unat (m_tail s);
            s1 = s\<lparr>m_tail := m_tail s + 1\<rparr>
        in if m_tail s1 \<ge> Nm
           then Returns v (s1\<lparr>m_tail := 0, m_head := m_head s1 - Nm\<rparr>)
           else Returns v s1)"

text \<open>
  A range-based \<open>for\<close> over the fifo calls \<open>begin()\<close>, then \<open>end()\<close>, and walks the first
  iterator up to the second with \<open>operator++\<close> and \<open>operator!=\<close>, reading \<open>operator*\<close>.
\<close>

function iterate :: "size_t \<Rightarrow> 'a fifo \<Rightarrow> size_t \<Rightarrow> size_t \<Rightarrow> 'a list" where
  "iterate Nm s b e = (if b = e then [] else iterator_deref Nm s b # iterate Nm s (b + 1) e)"
  by pat_completeness auto
termination
proof (relation "measure (\<lambda>(Nm, s, b, e). unat (e - b))")
  show "wf (measure (\<lambda>(Nm, s, b, e). unat (e - b)))"
    by simp
next
  fix Nm :: size_t and s :: "'a fifo" and b e :: size_t
  assume ne: "b \<noteq> e"
  have nz: "e - b \<noteq> 0"
    using ne by simp
  have eq: "e - (b + 1) = (e - b) - 1"
    by (simp add: algebra_simps)
  have "unat ((e - b) - 1) < unat (e - b)"
    using nz by (simp add: unat_minus_one unat_gt_0)
  then have "unat (e - (b + 1)) < unat (e - b)"
    unfolding eq .
  then show "((Nm, s, b + 1, e), (Nm, s, b, e)) \<in> measure (\<lambda>(Nm, s, b, e). unat (e - b))"
    by simp
qed

declare iterate.simps [simp del]

text \<open>The loop body reads \<open>operator*\<close>, whose remainder by \<open>Nm\<close> is undefined for \<open>Nm = 0\<close>.\<close>

definition fifo_range_for :: "size_t \<Rightarrow> 'a fifo \<Rightarrow> ('a list, 'a fifo) outcome" where
  "fifo_range_for Nm s =
     (let (b, s1) = fifo_begin s;
          (e, s2) = fifo_end s1
      in if b \<noteq> e \<and> Nm = 0 then Undefined else Returns (iterate Nm s2 b e) s2)"

subsection \<open>Sequences of public operations\<close>

datatype 'a fifo_op = Push 'a | Pop | Push_List "'a list" | Pop_List size_t | Clear | Begin | End

datatype 'a fifo_ret = Ret_Unit | Ret_Elem 'a | Ret_List "'a list" | Ret_Iter size_t | Thrown

text \<open>
  One call from client code: the value it yields (\<open>Thrown\<close> for a caught
  \<open>std::out_of_range\<close>) and the fifo it leaves; \<open>None\<close> when the call is undefined.
\<close>

definition observe :: "('r \<Rightarrow> 'a fifo_ret) \<Rightarrow> ('r, 'a fifo) outcome \<Rightarrow> ('a fifo_ret \<times> 'a fifo) option" where
  "observe f out = (case out of Returns r s' \<Rightarrow> Some (f r, s')
                               | Out_Of_Range s' \<Rightarrow> Some (Thrown, s')
                               | Undefined \<Rightarrow> None)"

fun fifo_apply :: "size_t \<Rightarrow> 'a fifo_op \<Rightarrow> 'a fifo \<Rightarrow> ('a fifo_ret \<times> 'a fifo) option" where
  "fifo_apply Nm (Push v) s = observe (\<lambda>_. Ret_Unit) (fifo_push Nm v s)"
| "fifo_apply Nm Pop s = observe Ret_Elem (fifo_pop Nm s)"
| "fifo_apply Nm (Push_List vals) s = observe (\<lambda>_. Ret_Unit) (fifo_push_list Nm vals s)"
| "fifo_apply Nm (Pop_List n) s = observe Ret_List (fifo_pop_list Nm n s)"
| "fifo_apply Nm Clear s = Some (Ret_Unit, fifo_clear s)"
| "fifo_apply Nm Begin s = Some (Ret_Iter (fst (fifo_begin s)), snd (fifo_begin s))"
| "fifo_apply Nm End s = Some (Ret_Iter (fst (fifo_end s)), snd (fifo_end s))"

fun fifo_run :: "size_t \<Rightarrow> 'a fifo_op list \<Rightarrow> 'a fifo \<Rightarrow> ('a fifo_ret list \<times> 'a fifo) option" where
  "fifo_run Nm [] s = Some ([], s)"
| "fifo_run Nm (a # ops) s =
     (case fifo_apply Nm a s of
        None \<Rightarrow> None
      | Some (r, s') \<Rightarrow>
          (case fifo_run Nm ops s' of
             None \<Rightarrow> None
           | Some (rs, s'') \<Rightarrow> Some (r # rs, s'')))"

fun is_push_pop :: "'a fifo_op \<Rightarrow> bool" where
  "is_push_pop (Push v) = True"
| "is_push_pop Pop = True"
| "is_push_pop _ = False"

fun is_end :: "'a fifo_op \<Rightarrow> bool" where
  "is_end End = True"
| "is_end _ = False"

text \<open>The values handed to \<open>push\<close>, and the values \<open>pop\<close> returned, in call order.\<close>

fun pushed :: "'a fifo_op list \<Rightarrow> 'a list" where
  "pushed [] = []"
| "pushed (Push v # ops) = v # pushed ops"
| "pushed (_ # ops) = pushed ops"

fun popped :: "'a fifo_ret list \<Rightarrow> 'a list" where
  "popped [] = []"
| "popped (Ret_Elem v # rs) = v # popped rs"
| "popped (_ # rs) = popped rs"

subsection \<open>Class invariant and the queue a fifo stands for\<close>

text \<open>
  The cursors are in normal position when the tail is a physical index and at most \<open>Nm\<close>
  elements lie between tail and head (in \<open>size_t\<close> arithmetic, as \<open>size()\<close> computes it).
\<close>

definition cursors_normal :: "size_t \<Rightarrow> 'a fifo \<Rightarrow> bool" where
  "cursors_normal Nm s \<longleftrightarrow> m_tail s < Nm \<and> fifo_size s \<le> Nm"

text \<open>
  The class invariant: besides, the array has its \<open>Nm\<close> slots, and an array of \<open>Nm\<close>
  elements fits the address space, so \<open>Nm\<close> is at most \<open>2^63\<close>.
\<close>

definition fifo_inv :: "size_t \<Rightarrow> 'a fifo \<Rightarrow> bool" where
  "fifo_inv Nm s \<longleftrightarrow>
     length (fifo_data s) = unat Nm \<and> unat Nm \<le> 2 ^ 63 \<and> cursors_normal Nm s"

text \<open>The queued elements, oldest first: logical index \<open>m_tail + i\<close> lives in slot \<open>(m_tail + i) mod Nm\<close>.\<close>

definition contents :: "size_t \<Rightarrow> 'a fifo \<Rightarrow> 'a list" where
  "contents Nm s =
     map (\<lambda>i. fifo_data s ! ((unat (m_tail s) + i) mod unat Nm)) [0..<unat (fifo_size s)]"

section \<open>Basic facts about the operations\<close>

lemmas fifo_eval =
  fifo_init_def fifo_clear_def fifo_size_def fifo_empty_def fifo_free_def fifo_full_def
  head_modulo_def increment_tail_def fifo_push_def fifo_pop_def fifo_push_list_def
  fifo_pop_list_def fifo_begin_def fifo_end_def observe_def Let_def
  word_le_nat_alt word_less_nat_alt

lemma full_iff_size: "fifo_full Nm s \<longleftrightarrow> fifo_size s = Nm"
  by (auto simp: fifo_full_def fifo_size_def)

lemma length_copy_to: "length (copy_to xs d dst) = length dst"
  by (induction xs d dst rule: copy_to.induct) simp_all

lemma size_increment_tail: "fifo_size (increment_tail Nm n s) = fifo_size s - n"
  by (simp add: increment_tail_def fifo_size_def Let_def)

lemma data_increment_tail: "fifo_data (increment_tail Nm n s) = fifo_data s"
  by (simp add: increment_tail_def Let_def)

lemma tail_increment_tail:
  assumes "m_tail s < Nm" and "n \<le> Nm"
  shows "m_tail (increment_tail Nm n s) < Nm"
proof -
  have "m_tail s + n \<ge> Nm \<Longrightarrow> m_tail s + n - Nm < Nm"
    using assms by unat_arith
  then show ?thesis
    by (auto simp: increment_tail_def Let_def not_le)
qed

lemma word_succ_le: "x \<le> (n::size_t) \<Longrightarrow> x \<noteq> n \<Longrightarrow> x + 1 \<le> n"
  by (simp add: inc_le)

lemma word_add_le_free: "x \<le> (n::size_t) \<Longrightarrow> \<not> n - x < k \<Longrightarrow> x + k \<le> n"
  by unat_arith

lemma word_pred_le: "x \<le> (n::size_t) \<Longrightarrow> x \<noteq> 0 \<Longrightarrow> x - 1 \<le> n"
  by unat_arith

lemma word_sub_le: "x \<le> (n::size_t) \<Longrightarrow> k \<le> x \<Longrightarrow> x - k \<le> n"
  by unat_arith

lemma push_Returns:
  assumes "fifo_push Nm v s = Returns r s'"
  shows "fifo_size s \<noteq> Nm \<and> Nm \<noteq> 0 \<and> m_tail s' = m_tail s \<and> fifo_size s' = fifo_size s + 1
         \<and> length (fifo_data s') = length (fifo_data s)"
proof -
  have nf: "fifo_size s \<noteq> Nm" and nz: "Nm \<noteq> 0"
    using assms by (auto simp: fifo_push_def full_iff_size split: if_splits)
  have s': "s' = s\<lparr>fifo_data := (fifo_data s)[unat (head_modulo Nm s) := v], m_head := m_head s + 1\<rparr>"
    using assms nf nz by (simp add: fifo_push_def full_iff_size)
  show ?thesis
    using nf nz by (simp add: s' fifo_size_def)
qed

lemma pop_Returns:
  assumes "fifo_pop Nm s = Returns v s'"
  shows "fifo_size s \<noteq> 0 \<and> m_tail s < Nm \<and> s' = increment_tail Nm 1 s \<and> v = fifo_data s ! unat (m_tail s)"
  using assms by (auto simp: fifo_pop_def fifo_empty_def fifo_size_def not_le split: if_splits)

lemma push_list_Returns:
  assumes "fifo_push_list Nm vals s = Returns r s'"
  shows "\<not> fifo_free Nm s < of_nat (length vals) \<and> Nm \<noteq> 0 \<and> m_tail s' = m_tail s
         \<and> fifo_size s' = fifo_size s + of_nat (length vals)
         \<and> length (fifo_data s') = length (fifo_data s)"
  using assms
  by (auto simp: fifo_push_list_def Let_def fifo_size_def length_copy_to split: if_splits)

lemma pop_list_Returns:
  assumes "fifo_pop_list Nm n0 s = Returns vs s'"
  shows "n0 \<le> fifo_size s \<and> s' = increment_tail Nm (if n0 = 0 then fifo_size s else n0) s"
  using assms
  by (auto simp: fifo_pop_list_def Let_def not_less split: if_splits)

lemma thrown_unchanged:
  "fifo_push Nm v s = Out_Of_Range s' \<Longrightarrow> s' = s"
  "fifo_pop Nm s = Out_Of_Range s' \<Longrightarrow> s' = s"
  "fifo_push_list Nm vals s = Out_Of_Range s' \<Longrightarrow> s' = s"
  "fifo_pop_list Nm n0 s = Out_Of_Range s' \<Longrightarrow> s' = s"
  by (auto simp: fifo_push_def fifo_pop_def fifo_push_list_def fifo_pop_list_def Let_def split: if_splits)

lemma observe_Some:
  "observe f out = Some (r, s') \<longleftrightarrow> (\<exists>x. out = Returns x s' \<and> r = f x) \<or> (out = Out_Of_Range s' \<and> r = Thrown)"
  by (cases out) (auto simp: observe_def)

lemma apply_size_le:
  assumes "fifo_size s \<le> Nm" and "fifo_apply Nm a s = Some (r, s')"
  shows "fifo_size s' \<le> Nm"
proof (cases a)
  case (Push v)
  then show ?thesis
    using assms word_succ_le[of "fifo_size s" Nm]
    by (auto simp: observe_Some dest!: push_Returns thrown_unchanged)
next
  case Pop
  then show ?thesis
    using assms word_pred_le[of "fifo_size s" Nm]
    by (auto simp: observe_Some size_increment_tail dest!: pop_Returns thrown_unchanged)
next
  case (Push_List vals)
  then show ?thesis
    using assms word_add_le_free[of "fifo_size s" Nm "of_nat (length vals)"]
    by (auto simp: observe_Some fifo_free_def dest!: push_list_Returns thrown_unchanged)
next
  case (Pop_List n0)
  then show ?thesis
    using assms word_sub_le[of "fifo_size s" Nm n0] word_sub_le[of "fifo_size s" Nm "fifo_size s"]
    by (auto simp: observe_Some size_increment_tail dest!: pop_list_Returns thrown_unchanged)
next
  case Clear
  then show ?thesis using assms by (auto simp: fifo_clear_def fifo_size_def)
next
  case Begin
  then show ?thesis using assms by (auto simp: fifo_begin_def)
next
  case End
  then show ?thesis using assms by (auto simp: fifo_end_def fifo_size_def)
qed


lemma run_size_le:
  "fifo_size s \<le> Nm \<Longrightarrow> fifo_run Nm ops s = Some (rs, s') \<Longrightarrow> fifo_size s' \<le> Nm"
proof (induction ops arbitrary: s rs)
  case Nil
  then show ?case by simp
next
  case (Cons a ops)
  from Cons.prems(2) obtain r s1 rs1 where
    a: "fifo_apply Nm a s = Some (r, s1)" and r: "fifo_run Nm ops s1 = Some (rs1, s')"
    by (auto split: option.splits)
  show ?case
    using Cons.IH[OF apply_size_le[OF Cons.prems(1) a] r] .
qed

lemma iterate_map:
  "iterate Nm s b e = map (\<lambda>i. iterator_deref Nm s (b + of_nat i)) [0..<unat (e - b)]"
proof (induction Nm s b e rule: iterate.induct)
  case (1 Nm s b e)
  show ?case
  proof (cases "b = e")
    case True
    then show ?thesis by (subst iterate.simps) simp
  next
    case False
    have nz: "e - b \<noteq> 0" using False by simp
    have eq: "e - (b + 1) = (e - b) - 1" by (simp add: algebra_simps)
    have len: "unat (e - b) = Suc (unat (e - (b + 1)))"
      unfolding eq using nz by (simp add: unat_minus_one unat_gt_0)
    have "iterate Nm s b e = iterator_deref Nm s b # iterate Nm s (b + 1) e"
      using False by (subst iterate.simps) simp
    also have "iterate Nm s (b + 1) e
        = map (\<lambda>i. iterator_deref Nm s (b + 1 + of_nat i)) [0..<unat (e - (b + 1))]"
      using 1 False by blast
    also have "iterator_deref Nm s b # map (\<lambda>i. iterator_deref Nm s (b + 1 + of_nat i)) [0..<unat (e - (b + 1))]
        = map (\<lambda>i. iterator_deref Nm s (b + of_nat i)) [0..<Suc (unat (e - (b + 1)))]"
      by (subst map_upt_Suc) (simp add: add.assoc)
    finally show ?thesis
      by (simp only: len)
  qed
qed

lemma pop_alt_eq: "fifo_pop_alt Nm s = fifo_pop Nm s"
proof (cases "fifo_empty s \<or> m_tail s \<ge> Nm")
  case True
  then show ?thesis by (auto simp: fifo_pop_alt_def fifo_pop_def)
next
  case False
  then have lt: "m_tail s < Nm" by (simp add: not_le)
  have "m_tail s + 1 \<ge> Nm \<Longrightarrow> m_tail s + 1 - Nm = 0"
    using lt by unat_arith
  then show ?thesis
    using False by (simp add: fifo_pop_alt_def fifo_pop_def increment_tail_def Let_def)
qed

section \<open>Contiguous copies and ring indices\<close>

lemma nth_copy_to:
  "d + length xs \<le> length dst \<Longrightarrow> i < length dst \<Longrightarrow>
   copy_to xs d dst ! i = (if d \<le> i \<and> i < d + length xs then xs ! (i - d) else dst ! i)"
proof (induction xs d dst rule: copy_to.induct)
  case (1 d dst)
  then show ?case by auto
next
  case (2 x xs d dst)
  have ih: "copy_to xs (Suc d) (dst[d := x]) ! i
      = (if Suc d \<le> i \<and> i < Suc d + length xs then xs ! (i - Suc d) else dst[d := x] ! i)"
    using 2 by simp
  show ?case
  proof (cases "i = d")
    case True
    then show ?thesis using ih 2 by simp
  next
    case False
    then show ?thesis using ih 2 by (auto simp: nth_Cons' Suc_diff_Suc)
  qed
qed

lemma mod_add_small:
  fixes a j N :: nat
  assumes "a < N" and "j \<le> N"
  shows "(a + j) mod N = (if a + j < N then a + j else a + j - N)"
proof (cases "a + j < N")
  case True
  then show ?thesis by simp
next
  case False
  then have "a + j - N < N" using assms by arith
  moreover have "(a + j) mod N = (a + j - N) mod N"
    using False by (simp add: le_mod_geq)
  ultimately show ?thesis using False by simp
qed

lemma ring_slots_distinct:
  fixes T i j N :: nat
  assumes "i < j" and "j - i < N"
  shows "(T + i) mod N \<noteq> (T + j) mod N"
proof
  assume eq: "(T + i) mod N = (T + j) mod N"
  have "(T + j) - (T + i) = j - i" by simp
  have "N dvd (T + j) - (T + i)"
    using eq by (metis mod_eq_dvd_iff_nat assms(1) add_le_cancel_left less_imp_le)
  then have "N dvd j - i" by simp
  then have "N \<le> j - i"
    using assms(1) by (intro dvd_imp_le) simp_all
  then show False using assms(2) by simp
qed

lemma ring_copy_nth:
  assumes len: "length data = N" and hm: "hm < N" and k: "length vals \<le> N"
    and a: "a = min (length vals) (N - hm)" and p: "p < N"
  shows "copy_to (drop a vals) 0 (copy_to (take a vals) hm data) ! p
         = (if p < length vals - a then vals ! (a + p)
            else if hm \<le> p \<and> p < hm + a then vals ! (p - hm)
            else data ! p)"
proof -
  let ?d1 = "copy_to (take a vals) hm data"
  have la: "length (take a vals) = a"
    using a by simp
  have l1: "length ?d1 = N"
    using len by (simp add: length_copy_to)
  have fit1: "hm + length (take a vals) \<le> length data"
    using a len hm by simp
  have fit2: "0 + length (drop a vals) \<le> length ?d1"
    using l1 k by simp
  have n1: "?d1 ! p = (if hm \<le> p \<and> p < hm + a then take a vals ! (p - hm) else data ! p)"
    using nth_copy_to[OF fit1, of p] p len la by simp
  have n2: "copy_to (drop a vals) 0 ?d1 ! p
      = (if p < length vals - a then drop a vals ! p else ?d1 ! p)"
    using nth_copy_to[OF fit2, of p] p l1 by simp
  have t: "hm \<le> p \<and> p < hm + a \<Longrightarrow> take a vals ! (p - hm) = vals ! (p - hm)"
    by (simp add: less_diff_conv2)
  have d: "p < length vals - a \<Longrightarrow> drop a vals ! p = vals ! (a + p)"
    by simp
  show ?thesis
    using n1 n2 t d by simp
qed

lemma ring_copy_new:
  assumes len: "length data = N" and hm: "hm < N" and k: "length vals \<le> N"
    and a: "a = min (length vals) (N - hm)" and j: "j < length vals"
  shows "copy_to (drop a vals) 0 (copy_to (take a vals) hm data) ! ((hm + j) mod N) = vals ! j"
proof -
  have jN: "j \<le> N" using j k by simp
  have q: "(hm + j) mod N = (if hm + j < N then hm + j else hm + j - N)"
    using mod_add_small[OF hm jN] .
  have qN: "(hm + j) mod N < N"
    using hm by simp
  note nth = ring_copy_nth[OF len hm k a qN]
  show ?thesis
  proof (cases "hm + j < N")
    case True
    then have ja: "j < a" using a j by arith
    have "\<not> hm + j < length vals - a"
      using a k hm by arith
    then show ?thesis
      using nth q True ja by simp
  next
    case False
    then have a': "a = N - hm" using a j by arith
    have "hm + j - N < length vals - a"
      using a' False j hm by simp
    moreover have "a + (hm + j - N) = j"
      using a' False hm by simp
    ultimately show ?thesis
      using nth q False by simp
  qed
qed

lemma ring_copy_old:
  assumes len: "length data = N" and hm: "hm < N" and k: "length vals \<le> N"
    and a: "a = min (length vals) (N - hm)" and p: "p < N"
    and other: "\<forall>j < length vals. p \<noteq> (hm + j) mod N"
  shows "copy_to (drop a vals) 0 (copy_to (take a vals) hm data) ! p = data ! p"
proof -
  note nth = ring_copy_nth[OF len hm k a p]
  have c1: "\<not> p < length vals - a"
  proof
    assume lt: "p < length vals - a"
    then have a': "a = N - hm" using a by arith
    have "a + p < length vals" using lt by simp
    moreover have "(hm + (a + p)) mod N = p"
      using a' hm p by simp
    ultimately show False using other by metis
  qed
  have c2: "\<not> (hm \<le> p \<and> p < hm + a)"
  proof
    assume h: "hm \<le> p \<and> p < hm + a"
    then have "p - hm < length vals" using a by arith
    moreover have "(hm + (p - hm)) mod N = p"
      using h p by simp
    ultimately show False using other by metis
  qed
  show ?thesis
    using nth c1 c2 by simp
qed

section \<open>The fifo as a queue: one operation at a time\<close>

lemma length_contents: "length (contents Nm s) = unat (fifo_size s)"
  by (simp add: contents_def)

lemma nth_contents:
  "i < unat (fifo_size s) \<Longrightarrow>
   contents Nm s ! i = fifo_data s ! ((unat (m_tail s) + i) mod unat Nm)"
  by (simp add: contents_def)

lemma inv_facts:
  assumes "fifo_inv Nm s"
  shows "length (fifo_data s) = unat Nm" and "unat Nm \<le> 2 ^ 63"
    and "unat (m_tail s) < unat Nm" and "unat (fifo_size s) \<le> unat Nm"
    and "unat (m_head s) = unat (m_tail s) + unat (fifo_size s)"
proof -
  show l: "length (fifo_data s) = unat Nm" and c: "unat Nm \<le> 2 ^ 63"
    and t: "unat (m_tail s) < unat Nm" and z: "unat (fifo_size s) \<le> unat Nm"
    using assms by (simp_all add: fifo_inv_def cursors_normal_def word_less_nat_alt word_le_nat_alt)
  have "unat (m_tail s) + unat (fifo_size s) < 2 ^ 64"
    using c t z by simp
  then have "unat (m_tail s + fifo_size s) = unat (m_tail s) + unat (fifo_size s)"
    by (simp add: unat_add_lem[THEN iffD1])
  moreover have "m_tail s + fifo_size s = m_head s"
    by (simp add: fifo_size_def)
  ultimately show "unat (m_head s) = unat (m_tail s) + unat (fifo_size s)"
    by simp
qed

lemma fifo_invI:
  "length (fifo_data s) = unat Nm \<Longrightarrow> unat Nm \<le> 2 ^ 63 \<Longrightarrow> unat (m_tail s) < unat Nm \<Longrightarrow>
   unat (fifo_size s) \<le> unat Nm \<Longrightarrow> fifo_inv Nm s"
  by (simp add: fifo_inv_def cursors_normal_def word_less_nat_alt word_le_nat_alt)

lemma unat_head_modulo:
  assumes "fifo_inv Nm s"
  shows "unat (head_modulo Nm s) = (unat (m_tail s) + unat (fifo_size s)) mod unat Nm"
  using inv_facts(5)[OF assms] by (simp add: head_modulo_def unat_mod)

lemma unat_tail_increment:
  assumes inv: "fifo_inv Nm s" and n: "n \<le> fifo_size s"
  shows "unat (m_tail (increment_tail Nm n s)) = (unat (m_tail s) + unat n) mod unat Nm"
proof -
  note f = inv_facts[OF inv]
  have nle: "unat n \<le> unat (fifo_size s)"
    using n by (simp add: word_le_nat_alt)
  have "unat (m_tail s) + unat n < 2 ^ 64"
    using f(2,3,4) nle by simp
  then have t: "unat (m_tail s + n) = unat (m_tail s) + unat n"
    by (simp add: unat_add_lem[THEN iffD1])
  show ?thesis
  proof (cases "m_tail s + n \<ge> Nm")
    case True
    then have ge: "unat Nm \<le> unat (m_tail s) + unat n"
      using t by (simp add: word_le_nat_alt)
    have "unat (m_tail s + n - Nm) = unat (m_tail s) + unat n - unat Nm"
      using True t by (simp add: unat_sub)
    moreover have "(unat (m_tail s) + unat n) mod unat Nm = unat (m_tail s) + unat n - unat Nm"
      using mod_add_small[of "unat (m_tail s)" "unat Nm" "unat n"] f(3,4) nle ge by simp
    ultimately show ?thesis
      using True by (simp add: increment_tail_def Let_def)
  next
    case False
    then have "unat (m_tail s) + unat n < unat Nm"
      using t by (simp add: word_le_nat_alt)
    then show ?thesis
      using False t by (simp add: increment_tail_def Let_def)
  qed
qed

lemma increment_tail_sim:
  assumes inv: "fifo_inv Nm s" and n: "n \<le> fifo_size s"
  shows "fifo_inv Nm (increment_tail Nm n s)"
    and "contents Nm (increment_tail Nm n s) = drop (unat n) (contents Nm s)"
proof -
  let ?s' = "increment_tail Nm n s"
  note f = inv_facts[OF inv]
  have pos: "0 < unat Nm" using f(3) by simp
  have tl: "unat (m_tail ?s') = (unat (m_tail s) + unat n) mod unat Nm"
    using unat_tail_increment[OF inv n] .
  have sz: "unat (fifo_size ?s') = unat (fifo_size s) - unat n"
    using n by (simp add: size_increment_tail unat_sub)
  show "fifo_inv Nm ?s'"
    using f(1,2,4) pos tl sz by (intro fifo_invI) (simp_all add: data_increment_tail)
  show "contents Nm ?s' = drop (unat n) (contents Nm s)"
  proof (rule nth_equalityI)
    show "length (contents Nm ?s') = length (drop (unat n) (contents Nm s))"
      using sz by (simp add: length_contents)
  next
    fix i assume "i < length (contents Nm ?s')"
    then have i: "i < unat (fifo_size s) - unat n"
      using sz by (simp add: length_contents)
    have "contents Nm ?s' ! i = fifo_data s ! (((unat (m_tail s) + unat n) mod unat Nm + i) mod unat Nm)"
      using i sz tl by (simp add: nth_contents data_increment_tail)
    also have "((unat (m_tail s) + unat n) mod unat Nm + i) mod unat Nm
        = (unat (m_tail s) + (unat n + i)) mod unat Nm"
      by (simp add: mod_add_left_eq add.assoc)
    also have "fifo_data s ! ((unat (m_tail s) + (unat n + i)) mod unat Nm)
        = drop (unat n) (contents Nm s) ! i"
      using i by (simp add: nth_contents length_contents)
    finally show "contents Nm ?s' ! i = drop (unat n) (contents Nm s) ! i" .
  qed
qed

lemma pop_sim:
  assumes inv: "fifo_inv Nm s" and ne: "\<not> fifo_empty s"
  shows "fifo_pop Nm s = Returns (hd (contents Nm s)) (increment_tail Nm 1 s)"
    and "fifo_inv Nm (increment_tail Nm 1 s)"
    and "contents Nm (increment_tail Nm 1 s) = tl (contents Nm s)"
proof -
  note f = inv_facts[OF inv]
  have nz: "fifo_size s \<noteq> 0"
    using ne by (simp add: fifo_empty_def fifo_size_def)
  then have one: "1 \<le> fifo_size s"
    by (simp add: word_le_nat_alt unat_gt_0 Suc_le_eq)
  have pos: "0 < unat (fifo_size s)"
    using nz by (simp add: unat_gt_0)
  have lt: "m_tail s < Nm"
    using f(3) by (simp add: word_less_nat_alt)
  have "hd (contents Nm s) = contents Nm s ! 0"
    using pos by (simp add: hd_conv_nth length_contents flip: length_greater_0_conv)
  also have "\<dots> = fifo_data s ! unat (m_tail s)"
    using pos f(3) by (simp add: nth_contents)
  finally have hd: "hd (contents Nm s) = fifo_data s ! unat (m_tail s)" .
  show "fifo_pop Nm s = Returns (hd (contents Nm s)) (increment_tail Nm 1 s)"
    using ne lt hd by (simp add: fifo_pop_def not_le)
  show "fifo_inv Nm (increment_tail Nm 1 s)"
    using increment_tail_sim(1)[OF inv one] .
  show "contents Nm (increment_tail Nm 1 s) = tl (contents Nm s)"
    using increment_tail_sim(2)[OF inv one] by (simp add: drop_Suc)
qed

lemma push_sim:
  assumes inv: "fifo_inv Nm s" and nf: "\<not> fifo_full Nm s"
  shows "\<exists>s'. fifo_push Nm v s = Returns () s' \<and> fifo_inv Nm s' \<and>
              contents Nm s' = contents Nm s @ [v]"
proof -
  note f = inv_facts[OF inv]
  let ?T = "unat (m_tail s)" and ?S = "unat (fifo_size s)" and ?N = "unat Nm"
  let ?k = "(?T + ?S) mod ?N"
  let ?s' = "s\<lparr>fifo_data := (fifo_data s)[?k := v], m_head := m_head s + 1\<rparr>"
  have pos: "0 < ?N" using f(3) by simp
  have nz: "Nm \<noteq> 0" using pos by (simp add: unat_gt_0)
  have "fifo_size s \<noteq> Nm"
    using nf by (simp add: full_iff_size)
  then have S: "?S < ?N"
    using f(4) by (simp add: word_unat_eq_iff)
  have p: "fifo_push Nm v s = Returns () ?s'"
    using nf nz unat_head_modulo[OF inv] by (simp add: fifo_push_def)
  have sz: "fifo_size ?s' = fifo_size s + 1"
    by (simp add: fifo_size_def)
  have "?S + unat (1::size_t) < 2 ^ 64"
    using S f(2) by simp
  then have szn: "unat (fifo_size ?s') = ?S + 1"
    using sz by (simp add: unat_add_lem[THEN iffD1])
  have inv': "fifo_inv Nm ?s'"
    using f(1,2,3) S szn by (intro fifo_invI) simp_all
  have k: "?k < length (fifo_data s)"
    using f(1) pos by simp
  have "contents Nm ?s' = contents Nm s @ [v]"
  proof (rule nth_equalityI)
    show "length (contents Nm ?s') = length (contents Nm s @ [v])"
      using szn by (simp add: length_contents)
  next
    fix i assume "i < length (contents Nm ?s')"
    then have i: "i < ?S + 1"
      using szn by (simp add: length_contents)
    show "contents Nm ?s' ! i = (contents Nm s @ [v]) ! i"
    proof (cases "i < ?S")
      case True
      have "(?T + i) mod ?N \<noteq> ?k"
        using ring_slots_distinct[of i ?S ?N ?T] True S by simp
      then have "contents Nm ?s' ! i = fifo_data s ! ((?T + i) mod ?N)"
        using i szn by (simp add: nth_contents)
      then show ?thesis
        using True by (simp add: nth_append length_contents nth_contents)
    next
      case False
      then have "i = ?S" using i by simp
      then show ?thesis
        using szn k by (simp add: nth_contents nth_append length_contents)
    qed
  qed
  then show ?thesis
    using p inv' by blast
qed

lemma unat_min: "unat (min a b) = min (unat a) (unat (b::size_t))"
  by (simp add: min_def word_le_nat_alt)

lemma pop_list_sim:
  assumes inv: "fifo_inv Nm s" and n0: "n0 \<le> fifo_size s"
    and n: "n = (if n0 = 0 then fifo_size s else n0)"
  shows "fifo_pop_list Nm n0 s = Returns (take (unat n) (contents Nm s)) (increment_tail Nm n s)"
proof -
  note f = inv_facts[OF inv]
  let ?T = "unat (m_tail s)" and ?S = "unat (fifo_size s)" and ?N = "unat Nm"
  let ?n1 = "min n (Nm - m_tail s)"
  let ?n2 = "n - ?n1"
  have nle: "n \<le> fifo_size s"
    using n n0 by simp
  then have nS: "unat n \<le> ?S"
    by (simp add: word_le_nat_alt)
  have chk: "\<not> (0 < n0 \<and> fifo_size s < n0)"
    using n0 by (simp add: not_less)
  have "m_tail s \<le> Nm"
    using f(3) by (simp add: word_le_nat_alt)
  then have room: "unat (Nm - m_tail s) = ?N - ?T"
    by (simp add: unat_sub)
  have u1: "unat ?n1 = min (unat n) (?N - ?T)"
    using room by (simp add: unat_min)
  have "?n1 \<le> n"
    by simp
  then have u2: "unat ?n2 = unat n - unat ?n1"
    by (simp add: unat_sub)
  have fit1: "\<not> unat Nm < ?T + unat ?n1"
    using u1 f(3) by simp
  have fit2: "\<not> unat Nm < unat ?n2"
    using u2 nS f(4) by simp
  have run: "fifo_pop_list Nm n0 s
      = Returns (take (unat ?n1) (drop ?T (fifo_data s)) @ take (unat ?n2) (fifo_data s))
                (increment_tail Nm n s)"
    using chk fit1 fit2 n by (simp add: fifo_pop_list_def Let_def)
  have n1le: "unat ?n1 \<le> ?N - ?T" and n1n: "unat ?n1 \<le> unat n"
    using u1 by simp_all
  have l1: "length (take (unat ?n1) (drop ?T (fifo_data s))) = unat ?n1"
    using n1le f(1) by simp
  have l2: "length (take (unat ?n2) (fifo_data s)) = unat ?n2"
    using fit2 f(1) by simp
  have total: "unat ?n1 + unat ?n2 = unat n"
    using u2 n1n by simp
  have "take (unat ?n1) (drop ?T (fifo_data s)) @ take (unat ?n2) (fifo_data s)
      = take (unat n) (contents Nm s)"
  proof (rule nth_equalityI)
    show "length (take (unat ?n1) (drop ?T (fifo_data s)) @ take (unat ?n2) (fifo_data s))
        = length (take (unat n) (contents Nm s))"
      using l1 l2 total nS by (simp add: length_contents)
  next
    fix i assume "i < length (take (unat ?n1) (drop ?T (fifo_data s)) @ take (unat ?n2) (fifo_data s))"
    then have i: "i < unat n"
      using l1 l2 total by simp
    have rhs: "take (unat n) (contents Nm s) ! i = fifo_data s ! ((?T + i) mod ?N)"
      using i nS by (simp add: nth_contents)
    show "(take (unat ?n1) (drop ?T (fifo_data s)) @ take (unat ?n2) (fifo_data s)) ! i
        = take (unat n) (contents Nm s) ! i"
    proof (cases "i < unat ?n1")
      case True
      then have "?T + i < ?N" using n1le by arith
      then have "(?T + i) mod ?N = ?T + i" by simp
      moreover have "(take (unat ?n1) (drop ?T (fifo_data s)) @ take (unat ?n2) (fifo_data s)) ! i
          = fifo_data s ! (?T + i)"
        using True l1 f(1) \<open>?T + i < ?N\<close> by (simp add: nth_append)
      ultimately show ?thesis using rhs by simp
    next
      case False
      then have a: "unat ?n1 = ?N - ?T" using u1 i by arith
      have iN: "i \<le> ?N" using i nS f(4) by simp
      have ge: "\<not> ?T + i < ?N"
        using False a by arith
      have "(?T + i) mod ?N = ?T + i - ?N"
        using mod_add_small[OF f(3) iN] ge by simp
      moreover have "i - unat ?n1 = ?T + i - ?N"
        using a f(3) by arith
      moreover have "i - unat ?n1 < unat ?n2"
        using False i total by arith
      then have "(take (unat ?n1) (drop ?T (fifo_data s)) @ take (unat ?n2) (fifo_data s)) ! i
          = fifo_data s ! (i - unat ?n1)"
        using False l1 by (simp add: nth_append)
      ultimately show ?thesis using rhs by simp
    qed
  qed
  then show ?thesis
    using run by simp
qed

lemma push_list_sim:
  assumes inv: "fifo_inv Nm s" and fits: "length vals \<le> unat (fifo_free Nm s)"
  shows "\<exists>s'. fifo_push_list Nm vals s = Returns () s' \<and> fifo_inv Nm s' \<and>
              contents Nm s' = contents Nm s @ vals"
proof -
  note f = inv_facts[OF inv]
  let ?T = "unat (m_tail s)" and ?S = "unat (fifo_size s)" and ?N = "unat Nm"
  let ?k = "length vals"
  let ?n = "of_nat ?k :: size_t"
  let ?hm = "(?T + ?S) mod ?N"
  let ?n1 = "min ?n (Nm - head_modulo Nm s)"
  let ?n2 = "?n - ?n1"
  let ?a = "min ?k (?N - ?hm)"
  let ?data' = "copy_to (drop ?a vals) 0 (copy_to (take ?a vals) ?hm (fifo_data s))"
  let ?s' = "s\<lparr>fifo_data := ?data', m_head := m_head s + ?n\<rparr>"
  have pos: "0 < ?N" using f(3) by simp
  have nz: "Nm \<noteq> 0" using pos by (simp add: unat_gt_0)
  have un: "unat ?n = ?k"
    using fits by (rule le_unat_uoi)
  have "fifo_size s \<le> Nm"
    using f(4) by (simp add: word_le_nat_alt)
  then have free: "unat (fifo_free Nm s) = ?N - ?S"
    by (simp add: fifo_free_def unat_sub)
  have kN: "?S + ?k \<le> ?N"
    using fits free f(4) by simp
  have chk: "\<not> fifo_free Nm s < ?n"
    using fits un by (simp add: word_less_nat_alt)
  have hm: "unat (head_modulo Nm s) = ?hm"
    using unat_head_modulo[OF inv] .
  have hmN: "?hm < ?N"
    using pos by simp
  have "head_modulo Nm s \<le> Nm"
    using hm hmN by (simp add: word_le_nat_alt)
  then have room: "unat (Nm - head_modulo Nm s) = ?N - ?hm"
    using hm by (simp add: unat_sub)
  have u1: "unat ?n1 = ?a"
    using room un by (simp add: unat_min)
  have "?n1 \<le> ?n"
    by simp
  then have u2: "unat ?n2 = ?k - ?a"
    using u1 un by (simp add: unat_sub)
  have fit2: "\<not> unat Nm < unat ?n2"
    using u2 kN by simp
  have rest: "take (?k - ?a) (drop ?a vals) = drop ?a vals"
    by simp
  have run: "fifo_push_list Nm vals s = Returns () ?s'"
    using chk nz fit2 by (simp add: fifo_push_list_def Let_def hm u1 u2 rest)
  have sz: "fifo_size ?s' = fifo_size s + ?n"
    by (simp add: fifo_size_def)
  have "?S + unat ?n < 2 ^ 64"
    using un kN f(2) by simp
  then have szn: "unat (fifo_size ?s') = ?S + ?k"
    using sz un by (simp add: unat_add_lem[THEN iffD1])
  have inv': "fifo_inv Nm ?s'"
    using f(1,2,3) kN szn by (intro fifo_invI) (simp_all add: length_copy_to)
  have kN': "?k \<le> ?N" using kN by simp
  have "contents Nm ?s' = contents Nm s @ vals"
  proof (rule nth_equalityI)
    show "length (contents Nm ?s') = length (contents Nm s @ vals)"
      using szn by (simp add: length_contents)
  next
    fix i assume "i < length (contents Nm ?s')"
    then have i: "i < ?S + ?k"
      using szn by (simp add: length_contents)
    have lhs: "contents Nm ?s' ! i = ?data' ! ((?T + i) mod ?N)"
      using i szn by (simp add: nth_contents)
    show "contents Nm ?s' ! i = (contents Nm s @ vals) ! i"
    proof (cases "i < ?S")
      case True
      have "\<forall>j < ?k. (?T + i) mod ?N \<noteq> (?hm + j) mod ?N"
      proof (intro allI impI)
        fix j assume j: "j < ?k"
        have "(?T + i) mod ?N \<noteq> (?T + (?S + j)) mod ?N"
          using True j kN by (intro ring_slots_distinct) simp_all
        moreover have "(?hm + j) mod ?N = (?T + (?S + j)) mod ?N"
          by (simp add: mod_add_left_eq add.assoc)
        ultimately show "(?T + i) mod ?N \<noteq> (?hm + j) mod ?N"
          by simp
      qed
      then have "?data' ! ((?T + i) mod ?N) = fifo_data s ! ((?T + i) mod ?N)"
        using ring_copy_old[OF f(1) hmN kN' refl, of "(?T + i) mod ?N"] pos by simp
      then show ?thesis
        using lhs True by (simp add: nth_append length_contents nth_contents)
    next
      case False
      then have j: "i - ?S < ?k" using i by simp
      have "(?hm + (i - ?S)) mod ?N = (?T + (?S + (i - ?S))) mod ?N"
        by (simp add: mod_add_left_eq add.assoc)
      then have "(?T + i) mod ?N = (?hm + (i - ?S)) mod ?N"
        using False by simp
      then have "?data' ! ((?T + i) mod ?N) = vals ! (i - ?S)"
        using ring_copy_new[OF f(1) hmN kN' refl j] by simp
      then show ?thesis
        using lhs False by (simp add: nth_append length_contents)
    qed
  qed
  then show ?thesis
    using run inv' by blast
qed

section \<open>Cursor normality and queue contents along runs\<close>

lemma apply_cursors_normal:
  assumes cn: "cursors_normal Nm s" and ne: "\<not> is_end a" and ap: "fifo_apply Nm a s = Some (r, s')"
  shows "cursors_normal Nm s'"
proof -
  have t: "m_tail s < Nm" and z: "fifo_size s \<le> Nm"
    using cn by (simp_all add: cursors_normal_def)
  have nz: "Nm \<noteq> 0"
    using t by auto
  then have one: "1 \<le> Nm"
    by (simp add: word_le_nat_alt unat_gt_0 Suc_le_eq)
  show ?thesis
  proof (cases a)
    case (Push v)
    then show ?thesis
      using ap cn t word_succ_le[OF z]
      by (auto simp: observe_Some cursors_normal_def dest!: push_Returns thrown_unchanged)
  next
    case Pop
    then show ?thesis
      using ap cn tail_increment_tail[OF t one] word_pred_le[OF z]
      by (auto simp: observe_Some cursors_normal_def size_increment_tail
               dest!: pop_Returns thrown_unchanged)
  next
    case (Push_List vals)
    then show ?thesis
      using ap cn t word_add_le_free[OF z, of "of_nat (length vals)"]
      by (auto simp: observe_Some cursors_normal_def fifo_free_def
               dest!: push_list_Returns thrown_unchanged)
  next
    case (Pop_List n0)
    show ?thesis
    proof (cases "fifo_pop_list Nm n0 s")
      case (Returns vs s1)
      note r = pop_list_Returns[OF Returns]
      let ?n = "if n0 = 0 then fifo_size s else n0"
      have nle: "?n \<le> fifo_size s" using r by simp
      then have "?n \<le> Nm" using z by (rule order_trans)
      then have "m_tail (increment_tail Nm ?n s) < Nm"
        using tail_increment_tail[OF t] by blast
      moreover have "fifo_size (increment_tail Nm ?n s) \<le> Nm"
        using word_sub_le[OF z nle] by (simp add: size_increment_tail)
      ultimately show ?thesis
        using ap Pop_List Returns r by (simp add: observe_def cursors_normal_def)
    next
      case (Out_Of_Range s1)
      then show ?thesis
        using ap Pop_List cn thrown_unchanged(4)[OF Out_Of_Range] by (simp add: observe_def)
    next
      case Undefined
      then show ?thesis using ap Pop_List by (simp add: observe_def)
    qed
  next
    case Clear
    then show ?thesis
      using ap nz by (auto simp: cursors_normal_def fifo_clear_def fifo_size_def word_neq_0_conv)
  next
    case Begin
    then show ?thesis using ap cn by (auto simp: fifo_begin_def)
  next
    case End
    then show ?thesis using ne by simp
  qed
qed

lemma run_cursors_normal:
  "cursors_normal Nm s \<Longrightarrow> \<forall>a \<in> set ops. \<not> is_end a \<Longrightarrow> fifo_run Nm ops s = Some (rs, s') \<Longrightarrow>
   cursors_normal Nm s'"
proof (induction ops arbitrary: s rs)
  case Nil
  then show ?case by simp
next
  case (Cons a ops)
  from Cons.prems(3) obtain r s1 rs1 where
    a: "fifo_apply Nm a s = Some (r, s1)" and r: "fifo_run Nm ops s1 = Some (rs1, s')"
    by (auto split: option.splits)
  have "cursors_normal Nm s1"
    using apply_cursors_normal[OF Cons.prems(1) _ a] Cons.prems(2) by simp
  then show ?case
    using Cons.IH[OF _ _ r] Cons.prems(2) by simp
qed

lemma init_cursors_normal: "Nm \<noteq> 0 \<Longrightarrow> cursors_normal Nm (fifo_init arr)"
  by (simp add: cursors_normal_def fifo_init_def fifo_size_def word_neq_0_conv)

lemma init_inv:
  "length arr = unat Nm \<Longrightarrow> unat Nm \<le> 2 ^ 63 \<Longrightarrow> Nm \<noteq> 0 \<Longrightarrow> fifo_inv Nm (fifo_init arr)"
  by (simp add: fifo_inv_def init_cursors_normal) (simp add: fifo_init_def)

lemma apply_length:
  assumes "fifo_apply Nm a s = Some (r, s')"
  shows "length (fifo_data s') = length (fifo_data s)"
proof (cases a)
  case (Push v)
  then show ?thesis
    using assms by (auto simp: observe_Some dest!: push_Returns thrown_unchanged)
next
  case Pop
  then show ?thesis
    using assms by (auto simp: observe_Some data_increment_tail dest!: pop_Returns thrown_unchanged)
next
  case (Push_List vals)
  then show ?thesis
    using assms by (auto simp: observe_Some dest!: push_list_Returns thrown_unchanged)
next
  case (Pop_List n0)
  then show ?thesis
    using assms
    by (auto simp: observe_Some data_increment_tail dest!: pop_list_Returns thrown_unchanged)
next
  case Clear
  then show ?thesis using assms by (auto simp: fifo_clear_def)
next
  case Begin
  then show ?thesis using assms by (auto simp: fifo_begin_def)
next
  case End
  then show ?thesis using assms by (auto simp: fifo_end_def)
qed

lemma run_length:
  "fifo_run Nm ops s = Some (rs, s') \<Longrightarrow> length (fifo_data s') = length (fifo_data s)"
proof (induction ops arbitrary: s rs)
  case Nil
  then show ?case by simp
next
  case (Cons a ops)
  from Cons.prems obtain r s1 rs1 where
    a: "fifo_apply Nm a s = Some (r, s1)" and r: "fifo_run Nm ops s1 = Some (rs1, s')"
    by (auto split: option.splits)
  show ?case
    using Cons.IH[OF r] apply_length[OF a] by simp
qed

lemma run_fifo_inv:
  assumes "fifo_inv Nm s" and "\<forall>a \<in> set ops. \<not> is_end a" and "fifo_run Nm ops s = Some (rs, s')"
  shows "fifo_inv Nm s'"
  using assms run_cursors_normal[of Nm s ops rs s'] run_length[of Nm ops s rs s']
  by (simp add: fifo_inv_def)

lemma contents_init: "contents Nm (fifo_init arr) = []"
  by (simp add: contents_def fifo_init_def fifo_size_def)

lemma contents_Nil_iff: "contents Nm s = [] \<longleftrightarrow> fifo_empty s"
proof -
  have "contents Nm s = [] \<longleftrightarrow> unat (fifo_size s) = 0"
    using length_contents[of Nm s] by (metis length_0_conv)
  then show ?thesis
    by (simp add: fifo_empty_def fifo_size_def unat_eq_zero)
qed

lemma run_push_pop:
  "fifo_inv Nm s \<Longrightarrow> \<forall>a \<in> set ops. is_push_pop a \<Longrightarrow> fifo_run Nm ops s = Some (rs, s') \<Longrightarrow>
   Thrown \<notin> set rs \<Longrightarrow>
   fifo_inv Nm s' \<and> contents Nm s @ pushed ops = popped rs @ contents Nm s' \<and>
   length (popped rs) = length (filter (\<lambda>a. a = Pop) ops)"
proof (induction ops arbitrary: s rs)
  case Nil
  then show ?case by simp
next
  case (Cons a ops)
  from Cons.prems(3) obtain r s1 rs1 where
    a: "fifo_apply Nm a s = Some (r, s1)" and run: "fifo_run Nm ops s1 = Some (rs1, s')"
    and rs: "rs = r # rs1"
    by (auto split: option.splits)
  have r: "r \<noteq> Thrown" and rs1: "Thrown \<notin> set rs1"
    using Cons.prems(4) rs by auto
  have pp: "\<forall>a \<in> set ops. is_push_pop a" and pa: "is_push_pop a"
    using Cons.prems(2) by simp_all
  show ?case
  proof (cases a)
    case (Push v)
    then have p: "fifo_push Nm v s = Returns () s1" and ru: "r = Ret_Unit"
      using a r by (auto simp: observe_Some)
    have "\<not> fifo_full Nm s"
      using push_Returns[OF p] by (simp add: full_iff_size)
    from push_sim[OF Cons.prems(1) this, of v] p
    have inv1: "fifo_inv Nm s1" and c1: "contents Nm s1 = contents Nm s @ [v]"
      by auto
    from Cons.IH[OF inv1 pp run rs1] show ?thesis
      using c1 rs ru Push by simp
  next
    case Pop
    then obtain v where p: "fifo_pop Nm s = Returns v s1" and ru: "r = Ret_Elem v"
      using a r by (auto simp: observe_Some)
    have ne: "\<not> fifo_empty s"
      using pop_Returns[OF p] by (simp add: fifo_empty_def fifo_size_def)
    note sim = pop_sim[OF Cons.prems(1) ne]
    have v: "v = hd (contents Nm s)" and s1: "s1 = increment_tail Nm 1 s"
      using p sim(1) by simp_all
    have inv1: "fifo_inv Nm s1" and c1: "contents Nm s1 = tl (contents Nm s)"
      using sim(2,3) s1 by simp_all
    have "contents Nm s \<noteq> []"
      using ne by (simp add: contents_Nil_iff)
    then have c: "contents Nm s = v # contents Nm s1"
      using v c1 by simp
    from Cons.IH[OF inv1 pp run rs1] show ?thesis
      using c rs ru Pop by simp
  qed (use pa in simp_all)
qed

lemma zero_capacity_throws:
  assumes "is_push_pop a" and "fifo_apply 0 a (fifo_init arr) = Some (r, s)"
  shows "r = Thrown"
  using assms
  by (cases a) (simp_all add: observe_def fifo_push_def fifo_pop_def fifo_full_def fifo_empty_def
      fifo_init_def)

section \<open>The bounded buffer\<close>

lemma get_throws_iff:
  "(\<exists>b'. buffer_get Nm b n = Out_Of_Range b') \<longleftrightarrow> n > m_used b \<or> n \<ge> Nm"
  by (auto simp: buffer_get_def)

text \<open>
  C1. The claim: \<open>get(n)\<close> fails with OutOfRange exactly when \<open>n >= used\<close>, so \<open>get(0)\<close>
  fails on a buffer with \<open>used = 0\<close>. The test in the code is \<open>n > m_used\<close> (lemma
  \<open>get_throws_iff\<close>): on a freshly constructed \<open>cc::buffer<Tp, 8>\<close>, whose \<open>size()\<close> is 0,
  \<open>get(0)\<close> does not throw and returns slot 0 of the array.
\<close>

theorem get_at_used_returns:
  "buffer_size (buffer_init (replicate 8 (0::nat))) = 0 \<and>
   buffer_empty (buffer_init (replicate 8 (0::nat))) \<and>
   buffer_get 8 (buffer_init (replicate 8 (0::nat))) 0
     = Returns 0 (buffer_init (replicate 8 0))"
  by (simp add: buffer_get_def buffer_init_def buffer_size_def buffer_empty_def)

text \<open>
  C9. For a buffer whose array has its \<open>Nm\<close> slots and a physical index \<open>n < Nm\<close>:
  \<open>assign(n, v)\<close> returns, \<open>get(n)\<close> on the buffer it leaves returns \<open>v\<close>, and \<open>size()\<close> is
  then the maximum of the previous size and \<open>n + 1\<close> (where \<open>n + 1\<close> does not wrap).
\<close>

theorem assign_then_get:
  assumes "n < Nm" and "length (buf_data b) = unat Nm"
  shows "\<exists>b'. buffer_assign Nm n v b = Returns () b' \<and> buffer_get Nm b' n = Returns v b'
           \<and> buffer_size b' = max (buffer_size b) (n + 1)
           \<and> unat (buffer_size b') = max (unat (buffer_size b)) (unat n + 1)"
proof -
  let ?b' = "b\<lparr>buf_data := (buf_data b)[unat n := v], m_used := max (m_used b) (n + 1)\<rparr>"
  have n1: "unat (n + 1) = unat n + 1"
    using assms(1) by unat_arith
  have lt: "n < n + 1"
    using n1 by (simp add: word_less_nat_alt)
  have a: "buffer_assign Nm n v b = Returns () ?b'"
    using assms(1) by (simp add: buffer_assign_def not_le)
  have le: "\<not> max (m_used b) (n + 1) < n"
    using lt by (metis max.cobounded2 not_less order.strict_trans2 order_less_imp_le order.asym)
  have idx: "unat n < length (buf_data b)"
    using assms by (simp add: word_less_nat_alt)
  have g: "buffer_get Nm ?b' n = Returns v ?b'"
    using assms(1) le idx by (simp add: buffer_get_def not_le)
  have m: "unat (max (m_used b) (n + 1)) = max (unat (m_used b)) (unat n + 1)"
    using n1 by (simp add: max_def word_le_nat_alt)
  show ?thesis
    using a g m by (simp add: buffer_size_def)
qed

theorem assign_then_get_witness:
  "(2::size_t) < 8 \<and> length (buf_data (buffer_init (replicate 8 (0::nat)))) = unat (8::size_t) \<and>
   (\<exists>b'. buffer_assign 8 2 (5::nat) (buffer_init (replicate 8 0)) = Returns () b' \<and>
         buffer_get 8 b' 2 = Returns 5 b' \<and> unat (buffer_size b') = 3)"
proof -
  have h1: "(2::size_t) < 8"
    by simp
  have h2: "length (buf_data (buffer_init (replicate 8 (0::nat)))) = unat (8::size_t)"
    by (simp add: buffer_init_def)
  have "\<exists>b'. buffer_assign 8 2 (5::nat) (buffer_init (replicate 8 0)) = Returns () b' \<and>
         buffer_get 8 b' 2 = Returns 5 b' \<and> unat (buffer_size b') = 3"
    using assign_then_get[OF h1 h2, of 5] by (auto simp: buffer_init_def buffer_size_def)
  then show ?thesis
    using h1 h2 by blast
qed

section \<open>Single operations of the fifo\<close>

text \<open>
  C5. When \<open>size()\<close> equals \<open>Nm\<close>, \<open>push(v)\<close> throws and the fifo at the throw is the one
  before the call. Otherwise, on a fifo of capacity \<open>Nm > 0\<close> whose array has its \<open>Nm\<close> slots,
  \<open>push(v)\<close> returns, slot \<open>m_head mod Nm\<close> holds \<open>v\<close>, every other slot and the tail are as
  before, and the head is \<open>m_head + 1\<close>, not reduced.
\<close>

theorem push_full_or_write:
  "(fifo_size s = Nm \<longrightarrow> fifo_push Nm v s = Out_Of_Range s) \<and>
   (fifo_size s \<noteq> Nm \<and> Nm \<noteq> 0 \<and> length (fifo_data s) = unat Nm \<longrightarrow>
      (\<exists>s'. fifo_push Nm v s = Returns () s' \<and>
            m_head s' = m_head s + 1 \<and> m_tail s' = m_tail s \<and>
            length (fifo_data s') = unat Nm \<and>
            fifo_data s' ! (unat (m_head s) mod unat Nm) = v \<and>
            (\<forall>i < unat Nm. i \<noteq> unat (m_head s) mod unat Nm \<longrightarrow> fifo_data s' ! i = fifo_data s ! i)))"
proof (intro conjI impI)
  assume "fifo_size s = Nm"
  then show "fifo_push Nm v s = Out_Of_Range s"
    by (simp add: fifo_push_def full_iff_size)
next
  assume a: "fifo_size s \<noteq> Nm \<and> Nm \<noteq> 0 \<and> length (fifo_data s) = unat Nm"
  let ?k = "unat (m_head s) mod unat Nm"
  let ?s' = "s\<lparr>fifo_data := (fifo_data s)[?k := v], m_head := m_head s + 1\<rparr>"
  have pos: "0 < unat Nm"
    using a by (simp add: unat_gt_0)
  have k: "?k < length (fifo_data s)"
    using a pos by simp
  have "fifo_push Nm v s = Returns () ?s'"
    using a by (simp add: fifo_push_def full_iff_size head_modulo_def unat_mod)
  moreover have "fifo_data ?s' ! ?k = v"
    using k by simp
  moreover have "\<forall>i < unat Nm. i \<noteq> ?k \<longrightarrow> fifo_data ?s' ! i = fifo_data s ! i"
    by simp
  ultimately show "\<exists>s'. fifo_push Nm v s = Returns () s' \<and>
            m_head s' = m_head s + 1 \<and> m_tail s' = m_tail s \<and>
            length (fifo_data s') = unat Nm \<and>
            fifo_data s' ! ?k = v \<and>
            (\<forall>i < unat Nm. i \<noteq> ?k \<longrightarrow> fifo_data s' ! i = fifo_data s ! i)"
    using a by (intro exI[of _ ?s']) simp
qed

theorem push_full_or_write_witness:
  "fifo_push 3 (7::nat) \<lparr>fifo_data = [4, 2, 3], m_head = 4, m_tail = 1\<rparr>
     = Out_Of_Range \<lparr>fifo_data = [4, 2, 3], m_head = 4, m_tail = 1\<rparr> \<and>
   (\<exists>s'. fifo_push 3 (7::nat) \<lparr>fifo_data = [4, 2, 3], m_head = 4, m_tail = 2\<rparr> = Returns () s' \<and>
         m_head s' = 5 \<and> m_tail s' = 2 \<and> fifo_data s' ! 1 = 7 \<and>
         fifo_data s' ! 0 = 4 \<and> fifo_data s' ! 2 = 3)"
  using push_full_or_write[of "\<lparr>fifo_data = [4, 2, 3], m_head = 4, m_tail = 1\<rparr>" 3 "7::nat"]
        push_full_or_write[of "\<lparr>fifo_data = [4, 2, 3], m_head = 4, m_tail = 2\<rparr>" 3 "7::nat"]
  by (auto simp: fifo_size_def)

text \<open>
  C4. \<open>push_list\<close> of \<open>n\<close> elements throws when \<open>n > free()\<close>, \<open>pop_list\<close> with a count
  \<open>n > 0\<close> throws when \<open>n > size()\<close>; these are the only throws of the two operations, a
  throw hands no element over, and the fifo at the throw (array, head, tail) is the one before
  the call.
\<close>

theorem bulk_all_or_nothing:
  "(fifo_free Nm s < of_nat (length vals) \<longrightarrow> fifo_push_list Nm vals s = Out_Of_Range s) \<and>
   (0 < n \<and> fifo_size s < n \<longrightarrow> fifo_pop_list Nm n s = Out_Of_Range s) \<and>
   (\<forall>s'. fifo_push_list Nm vals s = Out_Of_Range s' \<longrightarrow>
          s' = s \<and> fifo_free Nm s < of_nat (length vals)) \<and>
   (\<forall>s'. fifo_pop_list Nm n s = Out_Of_Range s' \<longrightarrow> s' = s \<and> 0 < n \<and> fifo_size s < n)"
  by (auto simp: fifo_push_list_def fifo_pop_list_def Let_def split: if_splits)

theorem bulk_all_or_nothing_witness:
  "fifo_push_list 3 [5, 6 :: nat] \<lparr>fifo_data = [1, 2, 3], m_head = 4, m_tail = 2\<rparr>
     = Out_Of_Range \<lparr>fifo_data = [1, 2, 3], m_head = 4, m_tail = 2\<rparr> \<and>
   fifo_pop_list 3 2 \<lparr>fifo_data = [1, 2, 3 :: nat], m_head = 3, m_tail = 2\<rparr>
     = Out_Of_Range \<lparr>fifo_data = [1, 2, 3], m_head = 3, m_tail = 2\<rparr>"
  using bulk_all_or_nothing[of 3 "\<lparr>fifo_data = [1, 2, 3], m_head = 4, m_tail = 2\<rparr>" "[5, 6 :: nat]" 2]
        bulk_all_or_nothing[of 3 "\<lparr>fifo_data = [1, 2, 3 :: nat], m_head = 3, m_tail = 2\<rparr>" "[]" 2]
  by (simp add: fifo_free_def fifo_size_def)

section \<open>Iteration\<close>

text \<open>
  C8. \<open>begin()\<close> returns the tail and changes nothing. \<open>end()\<close> returns the head and adds
  \<open>size()\<close> to the tail, so that afterwards the tail equals the head and the fifo is empty;
  array and head are untouched. A range-based \<open>for\<close> therefore visits the \<open>size()\<close> queued
  elements, oldest first (it returns for every capacity \<open>Nm > 0\<close>), and whenever it returns
  it leaves the fifo empty.
\<close>

theorem end_consumes:
  "fifo_begin s = (m_tail s, s) \<and>
   fst (fifo_end s) = m_head s \<and>
   m_tail (snd (fifo_end s)) = m_tail s + fifo_size s \<and>
   m_tail (snd (fifo_end s)) = m_head s \<and>
   m_head (snd (fifo_end s)) = m_head s \<and>
   fifo_data (snd (fifo_end s)) = fifo_data s \<and>
   fifo_empty (snd (fifo_end s)) \<and>
   fifo_size (snd (fifo_end s)) = 0 \<and>
   (Nm \<noteq> 0 \<or> fifo_empty s \<longrightarrow>
      fifo_range_for Nm s
        = Returns (map (\<lambda>i. fifo_data s ! unat ((m_tail s + of_nat i) mod Nm))
                       [0..<unat (fifo_size s)])
                  (snd (fifo_end s))) \<and>
   (\<forall>vs s'. fifo_range_for Nm s = Returns vs s' \<longrightarrow>
      fifo_empty s' \<and> m_tail s' = m_head s \<and> m_head s' = m_head s \<and>
      length vs = unat (fifo_size s))"
proof -
  have r: "fifo_range_for Nm s
        = (if m_tail s \<noteq> m_head s \<and> Nm = 0 then Undefined
           else Returns (map (\<lambda>i. fifo_data s ! unat ((m_tail s + of_nat i) mod Nm))
                             [0..<unat (fifo_size s)])
                        (snd (fifo_end s)))"
    by (simp add: fifo_range_for_def fifo_begin_def fifo_end_def fifo_size_def iterate_map
        iterator_deref_def)
  have e: "fifo_empty s \<longleftrightarrow> m_tail s = m_head s"
    by (auto simp: fifo_empty_def)
  show ?thesis
    unfolding r e
    by (auto simp: fifo_begin_def fifo_end_def fifo_size_def fifo_empty_def)
qed

theorem end_consumes_witness:
  "fifo_range_for 5 \<lparr>fifo_data = [4, 5, 1, 2, 3 :: nat], m_head = 7, m_tail = 2\<rparr>
     = Returns [1, 2, 3, 4, 5] \<lparr>fifo_data = [4, 5, 1, 2, 3], m_head = 7, m_tail = 7\<rparr> \<and>
   fifo_empty \<lparr>fifo_data = [4, 5, 1, 2, 3 :: nat], m_head = 7, m_tail = 7\<rparr>"
proof -
  let ?s = "\<lparr>fifo_data = [4, 5, 1, 2, 3 :: nat], m_head = 7, m_tail = 2\<rparr>"
  have h: "(5 :: size_t) \<noteq> 0 \<or> fifo_empty ?s"
    by simp
  have r: "fifo_range_for 5 ?s
     = Returns [1, 2, 3, 4, 5] \<lparr>fifo_data = [4, 5, 1, 2, 3], m_head = 7, m_tail = 7\<rparr>"
    using end_consumes[of ?s 5] h
    by (simp add: fifo_end_def fifo_size_def upt_conv_Cons)
  have "fifo_empty \<lparr>fifo_data = [4, 5, 1, 2, 3 :: nat], m_head = 7, m_tail = 7\<rparr>"
    using end_consumes[of ?s 5] r by simp
  then show ?thesis
    using r by blast
qed

section \<open>Invariants over sequences of operations\<close>

text \<open>
  C7. After any sequence of public operations on a freshly constructed fifo, with
  \<open>head - tail\<close> computed in \<open>size_t\<close> as \<open>size()\<close> does: \<open>head - tail\<close> is at most
  \<open>Nm\<close>; \<open>size()\<close> is \<open>head - tail\<close>; \<open>full()\<close> holds exactly when \<open>head - tail = Nm\<close>;
  \<open>empty()\<close> holds exactly when \<open>head = tail\<close>. While the tail is below \<open>Nm\<close> (and
  \<open>Nm\<close> is at most \<open>2^63\<close>), the difference is also exact over the integers:
  \<open>tail \<le> head\<close>.
\<close>

theorem size_within_capacity:
  assumes "length arr = unat Nm" and "fifo_run Nm ops (fifo_init arr) = Some (rs, s)"
  shows "unat (m_head s - m_tail s) \<le> unat Nm \<and>
         fifo_size s = m_head s - m_tail s \<and>
         (fifo_full Nm s \<longleftrightarrow> m_head s - m_tail s = Nm) \<and>
         (fifo_empty s \<longleftrightarrow> m_head s = m_tail s) \<and>
         (fifo_empty s \<longleftrightarrow> m_head s - m_tail s = 0) \<and>
         unat (fifo_free Nm s) = unat Nm - unat (m_head s - m_tail s) \<and>
         (m_tail s < Nm \<and> unat Nm \<le> 2 ^ 63 \<longrightarrow>
            unat (m_tail s) \<le> unat (m_head s) \<and>
            unat (m_head s) - unat (m_tail s) = unat (fifo_size s))"
proof -
  have "fifo_size (fifo_init arr) \<le> Nm"
    by (simp add: fifo_size_def fifo_init_def)
  then have le: "fifo_size s \<le> Nm"
    using assms(2) by (rule run_size_le)
  have free: "unat (fifo_free Nm s) = unat Nm - unat (fifo_size s)"
    using le by (simp add: fifo_free_def unat_sub)
  have nowrap: "unat (m_tail s) \<le> unat (m_head s) \<and>
            unat (m_head s) - unat (m_tail s) = unat (fifo_size s)"
    if "m_tail s < Nm" "unat Nm \<le> 2 ^ 63"
  proof -
    have "unat (m_tail s) + unat (fifo_size s) < 2 ^ 64"
      using that le by (simp add: word_less_nat_alt word_le_nat_alt)
    then have "unat (m_tail s + fifo_size s) = unat (m_tail s) + unat (fifo_size s)"
      by (simp add: unat_add_lem[THEN iffD1])
    moreover have "m_tail s + fifo_size s = m_head s"
      by (simp add: fifo_size_def)
    ultimately show ?thesis by simp
  qed
  show ?thesis
    using le free nowrap
    by (simp add: full_iff_size word_le_nat_alt fifo_empty_def) (simp add: fifo_size_def)
qed

theorem size_within_capacity_witness:
  "length [0, 0, 0 :: nat] = unat (3 :: size_t) \<and>
   fifo_run 3 [Push 1, Push 2, Push 3, Pop, Push 4, Pop, Pop, Push_List [5, 6], Pop_List 2, End, Push 7]
      (fifo_init [0, 0, 0 :: nat])
     = Some ([Ret_Unit, Ret_Unit, Ret_Unit, Ret_Elem 1, Ret_Unit, Ret_Elem 2, Ret_Elem 3, Ret_Unit,
              Ret_List [4, 5], Ret_Iter 3, Ret_Unit],
             \<lparr>fifo_data = [7, 5, 6], m_head = 4, m_tail = 3\<rparr>) \<and>
   unat (m_head \<lparr>fifo_data = [7, 5, 6 :: nat], m_head = 4, m_tail = 3\<rparr>
         - m_tail \<lparr>fifo_data = [7, 5, 6 :: nat], m_head = 4, m_tail = 3\<rparr>) \<le> unat (3 :: size_t)"
proof -
  have h1: "length [0, 0, 0 :: nat] = unat (3 :: size_t)"
    by simp
  have h2: "fifo_run 3 [Push 1, Push 2, Push 3, Pop, Push 4, Pop, Pop, Push_List [5, 6], Pop_List 2, End, Push 7]
      (fifo_init [0, 0, 0 :: nat])
     = Some ([Ret_Unit, Ret_Unit, Ret_Unit, Ret_Elem 1, Ret_Unit, Ret_Elem 2, Ret_Elem 3, Ret_Unit,
              Ret_List [4, 5], Ret_Iter 3, Ret_Unit],
             \<lparr>fifo_data = [7, 5, 6], m_head = 4, m_tail = 3\<rparr>)"
    by (simp add: fifo_eval)
  have c: "unat (m_head \<lparr>fifo_data = [7, 5, 6 :: nat], m_head = 4, m_tail = 3\<rparr>
         - m_tail \<lparr>fifo_data = [7, 5, 6 :: nat], m_head = 4, m_tail = 3\<rparr>) \<le> unat (3 :: size_t)"
    using size_within_capacity[OF h1 h2] by blast
  show ?thesis
    using h1 h2 c by blast
qed

text \<open>
  C2. The claim: after any sequence of public operations, \<open>begin()\<close> and \<open>end()\<close>
  included, the tail is below \<open>Nm\<close>. \<open>end()\<close> adds \<open>size()\<close> to the tail without the
  normalisation of \<open>increment_tail\<close>: on a fifo of capacity 3 filled by three pushes it leaves
  the tail at 3. The fifo accepts a further push, and the \<open>pop\<close> after it reads
  \<open>operator[](3)\<close>, outside the array. (Without \<open>end()\<close> the tail stays below \<open>Nm\<close>:
  lemma \<open>run_cursors_normal\<close>.)
\<close>

theorem end_leaves_tail_at_capacity:
  "fifo_run 3 [Push 1, Push 2, Push 3, End] (fifo_init [0, 0, 0 :: nat])
     = Some ([Ret_Unit, Ret_Unit, Ret_Unit, Ret_Iter 3],
             \<lparr>fifo_data = [1, 2, 3], m_head = 3, m_tail = 3\<rparr>) \<and>
   \<not> m_tail \<lparr>fifo_data = [1, 2, 3 :: nat], m_head = 3, m_tail = 3\<rparr> < 3 \<and>
   fifo_run 3 [Push 1, Push 2, Push 3, End, Push 4] (fifo_init [0, 0, 0 :: nat])
     = Some ([Ret_Unit, Ret_Unit, Ret_Unit, Ret_Iter 3, Ret_Unit],
             \<lparr>fifo_data = [4, 2, 3], m_head = 4, m_tail = 3\<rparr>) \<and>
   fifo_pop 3 \<lparr>fifo_data = [4, 2, 3 :: nat], m_head = 4, m_tail = 3\<rparr> = Undefined"
  by (simp add: fifo_eval)

section \<open>The fifo is a bounded queue\<close>

text \<open>
  C3. Take a freshly constructed fifo of capacity \<open>Nm\<close> (at most \<open>2^63\<close>, as any array that
  fits the address space) and any sequence of \<open>push\<close> and \<open>pop\<close> calls none of which throws.
  Then the values returned by \<open>pop\<close> are, in order, the first values pushed, one per \<open>pop\<close>
  call; \<open>size()\<close> is the number of pushes minus the number of pops; the fifo stands for
  the pushed values not yet popped; when as many values were popped as pushed the fifo is empty
  with \<open>free() = Nm\<close>; a further \<open>push\<close> returns unless the fifo is full, a further \<open>pop\<close>
  returns the oldest element unless it is empty. The sequence is of any length, so the cursors
  may have passed \<open>Nm\<close> any number of times.
\<close>

theorem fifo_law:
  assumes len: "length arr = unat Nm" and cap: "unat Nm \<le> 2 ^ 63"
    and pp: "\<forall>a \<in> set ops. is_push_pop a"
    and run: "fifo_run Nm ops (fifo_init arr) = Some (rs, s)"
    and ok: "Thrown \<notin> set rs"
  shows "length (popped rs) = length (filter (\<lambda>a. a = Pop) ops) \<and>
         length (popped rs) \<le> length (pushed ops) \<and>
         unat (fifo_size s) = length (pushed ops) - length (popped rs) \<and>
         popped rs = take (length (popped rs)) (pushed ops) \<and>
         contents Nm s = drop (length (popped rs)) (pushed ops) \<and>
         (length (popped rs) = length (pushed ops) \<longrightarrow>
            popped rs = pushed ops \<and> fifo_empty s \<and> fifo_free Nm s = Nm) \<and>
         (\<forall>v. fifo_size s \<noteq> Nm \<longrightarrow> (\<exists>s'. fifo_push Nm v s = Returns () s')) \<and>
         (\<not> fifo_empty s \<longrightarrow> (\<exists>s'. fifo_pop Nm s = Returns (hd (contents Nm s)) s'))"
proof (cases "Nm = 0")
  case True
  have "ops = []"
  proof (cases ops)
    case (Cons a ops')
    then obtain r s1 rs1 where
      a: "fifo_apply 0 a (fifo_init arr) = Some (r, s1)" and rs: "rs = r # rs1"
      using run True by (auto split: option.splits)
    have "r = Thrown"
      using zero_capacity_throws[OF _ a] pp Cons by simp
    then show ?thesis using ok rs by simp
  qed simp
  then have "rs = []" and "s = fifo_init arr"
    using run by simp_all
  then show ?thesis
    using True \<open>ops = []\<close>
    by (simp add: contents_init) (simp add: fifo_init_def fifo_size_def fifo_empty_def fifo_free_def)
next
  case False
  have inv0: "fifo_inv Nm (fifo_init arr)"
    using init_inv[OF len cap False] .
  from run_push_pop[OF inv0 pp run ok]
  have inv: "fifo_inv Nm s" and split: "pushed ops = popped rs @ contents Nm s"
    and pops: "length (popped rs) = length (filter (\<lambda>a. a = Pop) ops)"
    by (simp_all add: contents_init)
  have lenp: "length (pushed ops) = length (popped rs) + unat (fifo_size s)"
    using arg_cong[OF split, of length] by (simp add: length_contents)
  have tk: "popped rs = take (length (popped rs)) (pushed ops)"
    and dr: "contents Nm s = drop (length (popped rs)) (pushed ops)"
    using split by simp_all
  have drained: "popped rs = pushed ops \<and> fifo_empty s \<and> fifo_free Nm s = Nm"
    if "length (popped rs) = length (pushed ops)"
  proof -
    have "unat (fifo_size s) = 0"
      using that lenp by simp
    then have z: "fifo_size s = 0"
      by (simp add: unat_eq_zero)
    then have "contents Nm s = []"
      by (simp add: contents_def)
    then show ?thesis
      using split z by (simp add: fifo_free_def fifo_empty_def fifo_size_def)
  qed
  have push_ok: "\<exists>s'. fifo_push Nm v s = Returns () s'" if "fifo_size s \<noteq> Nm" for v
    using push_sim[OF inv, of v] that by (auto simp: full_iff_size)
  have pop_ok: "\<exists>s'. fifo_pop Nm s = Returns (hd (contents Nm s)) s'" if "\<not> fifo_empty s"
    using pop_sim(1)[OF inv that] by blast
  show ?thesis
    using pops lenp tk dr drained push_ok pop_ok by simp
qed

theorem fifo_law_witness:
  "length [0, 0, 0 :: nat] = unat (3 :: size_t) \<and> unat (3 :: size_t) \<le> 2 ^ 63 \<and>
   fifo_run 3 [Push 1, Push 2, Push 3, Pop, Push 4, Pop, Push 5, Pop, Pop, Pop,
               Push 6, Push 7, Push 8, Pop, Pop, Pop] (fifo_init [0, 0, 0 :: nat])
     = Some ([Ret_Unit, Ret_Unit, Ret_Unit, Ret_Elem 1, Ret_Unit, Ret_Elem 2, Ret_Unit, Ret_Elem 3,
              Ret_Elem 4, Ret_Elem 5, Ret_Unit, Ret_Unit, Ret_Unit, Ret_Elem 6, Ret_Elem 7, Ret_Elem 8],
             \<lparr>fifo_data = [7, 8, 6], m_head = 2, m_tail = 2\<rparr>) \<and>
   popped [Ret_Unit, Ret_Unit, Ret_Unit, Ret_Elem 1, Ret_Unit, Ret_Elem 2, Ret_Unit, Ret_Elem 3,
           Ret_Elem 4, Ret_Elem 5, Ret_Unit, Ret_Unit, Ret_Unit, Ret_Elem 6, Ret_Elem 7, Ret_Elem (8 :: nat)]
     = [1, 2, 3, 4, 5, 6, 7, 8] \<and>
   fifo_empty \<lparr>fifo_data = [7, 8, 6 :: nat], m_head = 2, m_tail = 2\<rparr> \<and>
   fifo_free 3 \<lparr>fifo_data = [7, 8, 6 :: nat], m_head = 2, m_tail = 2\<rparr> = 3"
proof -
  let ?ops = "[Push 1, Push 2, Push 3, Pop, Push 4, Pop, Push 5, Pop, Pop, Pop,
               Push 6, Push 7, Push 8, Pop, Pop, Pop] :: nat fifo_op list"
  let ?rs = "[Ret_Unit, Ret_Unit, Ret_Unit, Ret_Elem 1, Ret_Unit, Ret_Elem 2, Ret_Unit, Ret_Elem 3,
              Ret_Elem 4, Ret_Elem 5, Ret_Unit, Ret_Unit, Ret_Unit, Ret_Elem 6, Ret_Elem 7, Ret_Elem 8]
             :: nat fifo_ret list"
  let ?s = "\<lparr>fifo_data = [7, 8, 6 :: nat], m_head = 2, m_tail = 2\<rparr>"
  have h1: "length [0, 0, 0 :: nat] = unat (3 :: size_t)"
    by simp
  have h2: "unat (3 :: size_t) \<le> 2 ^ 63"
    by simp
  have h3: "\<forall>a \<in> set ?ops. is_push_pop a"
    by simp
  have h4: "fifo_run 3 ?ops (fifo_init [0, 0, 0 :: nat]) = Some (?rs, ?s)"
    by (simp add: fifo_eval)
  have h5: "Thrown \<notin> set ?rs"
    by simp
  have "popped ?rs = [1, 2, 3, 4, 5, 6, 7, 8] \<and> fifo_empty ?s \<and> fifo_free 3 ?s = 3"
    using fifo_law[OF h1 h2 h3 h4 h5] by simp
  then show ?thesis
    using h1 h2 h4 by blast
qed

text \<open>
  C6, as claimed: for every state with \<open>free() \<ge> k\<close>, \<open>push_list\<close> of \<open>k\<close> elements then
  \<open>pop_list\<close> of \<open>k\<close> yields the pushed sequence. It fails on a fifo that already holds an
  element: \<open>pop_list\<close> hands out the oldest elements first. Capacity 5, one element 9
  queued, then \<open>push_list\<close> of 1, 2 and \<open>pop_list\<close> of two elements: the destination
  receives 9, 1.
\<close>

theorem push_list_pop_list_oldest_first:
  "fifo_run 5 [Push 9] (fifo_init [0, 0, 0, 0, 0 :: nat])
     = Some ([Ret_Unit], \<lparr>fifo_data = [9, 0, 0, 0, 0], m_head = 1, m_tail = 0\<rparr>) \<and>
   length [1, 2 :: nat]
     \<le> unat (fifo_free 5 \<lparr>fifo_data = [9, 0, 0, 0, 0 :: nat], m_head = 1, m_tail = 0\<rparr>) \<and>
   fifo_push_list 5 [1, 2] \<lparr>fifo_data = [9, 0, 0, 0, 0 :: nat], m_head = 1, m_tail = 0\<rparr>
     = Returns () \<lparr>fifo_data = [9, 1, 2, 0, 0], m_head = 3, m_tail = 0\<rparr> \<and>
   fifo_pop_list 5 2 \<lparr>fifo_data = [9, 1, 2, 0, 0 :: nat], m_head = 3, m_tail = 0\<rparr>
     = Returns [9, 1] \<lparr>fifo_data = [9, 1, 2, 0, 0], m_head = 3, m_tail = 2\<rparr> \<and>
   [9, 1] \<noteq> [1, 2 :: nat]"
  by (simp add: fifo_eval)

text \<open>
  C6, amended. On a fifo that satisfies the class invariant (as every fifo does that was
  reached without \<open>end()\<close>, lemma \<open>run_fifo_inv\<close>) and for a source of \<open>k \<le> free()\<close>
  elements, \<open>push_list\<close> returns and the following \<open>pop_list\<close> of \<open>k\<close>
  returns; for \<open>k \<ge> 1\<close> it yields the first \<open>k\<close> elements of the old contents followed by
  the source; on an empty fifo it yields exactly the source, in order, wherever the physical
  wrap falls, and leaves the fifo empty.
\<close>

theorem push_list_pop_list_roundtrip:
  assumes inv: "fifo_inv Nm s" and fits: "length vals \<le> unat (fifo_free Nm s)"
  shows "\<exists>s1 out s2.
           fifo_push_list Nm vals s = Returns () s1 \<and>
           fifo_pop_list Nm (of_nat (length vals)) s1 = Returns out s2 \<and>
           (vals \<noteq> [] \<longrightarrow> out = take (length vals) (contents Nm s @ vals)) \<and>
           (fifo_empty s \<longrightarrow> out = vals \<and> fifo_empty s2)"
proof -
  let ?k = "of_nat (length vals) :: size_t"
  from push_list_sim[OF inv fits] obtain s1 where
    p: "fifo_push_list Nm vals s = Returns () s1" and inv1: "fifo_inv Nm s1"
    and c1: "contents Nm s1 = contents Nm s @ vals"
    by blast
  have uk: "unat ?k = length vals"
    using fits by (rule le_unat_uoi)
  have "length vals \<le> length (contents Nm s1)"
    using c1 by simp
  then have kle: "?k \<le> fifo_size s1"
    using uk by (simp add: length_contents word_le_nat_alt)
  let ?n = "if ?k = 0 then fifo_size s1 else ?k"
  let ?s2 = "increment_tail Nm ?n s1"
  have q: "fifo_pop_list Nm ?k s1 = Returns (take (unat ?n) (contents Nm s1)) ?s2"
    using pop_list_sim[OF inv1 kle refl] .
  have nle: "?n \<le> fifo_size s1"
    using kle by simp
  have c2: "contents Nm ?s2 = drop (unat ?n) (contents Nm s1)"
    using increment_tail_sim(2)[OF inv1 nle] .
  have k0: "?k = 0 \<longleftrightarrow> vals = []"
    using uk by (metis length_0_conv unat_eq_zero)
  have nonempty: "take (unat ?n) (contents Nm s1) = take (length vals) (contents Nm s @ vals)"
    if "vals \<noteq> []"
    using that k0 uk c1 by simp
  have empty: "take (unat ?n) (contents Nm s1) = vals \<and> fifo_empty ?s2" if e: "fifo_empty s"
  proof -
    have c: "contents Nm s1 = vals"
      using e c1 by (simp add: contents_Nil_iff[THEN iffD2])
    have n: "unat ?n = length vals"
      using uk c length_contents[of Nm s1] by (cases "?k = 0") simp_all
    have "contents Nm ?s2 = []"
      using c2 c n by simp
    then show ?thesis
      using c n by (simp add: contents_Nil_iff)
  qed
  show ?thesis
    using p q nonempty empty by blast
qed

theorem push_list_pop_list_roundtrip_witness:
  "fifo_inv 5 \<lparr>fifo_data = [1, 2, 3, 4, 0 :: nat], m_head = 4, m_tail = 4\<rparr> \<and>
   length [7, 8, 9 :: nat]
     \<le> unat (fifo_free 5 \<lparr>fifo_data = [1, 2, 3, 4, 0 :: nat], m_head = 4, m_tail = 4\<rparr>) \<and>
   fifo_empty \<lparr>fifo_data = [1, 2, 3, 4, 0 :: nat], m_head = 4, m_tail = 4\<rparr> \<and>
   fifo_push_list 5 [7, 8, 9] \<lparr>fifo_data = [1, 2, 3, 4, 0 :: nat], m_head = 4, m_tail = 4\<rparr>
     = Returns () \<lparr>fifo_data = [8, 9, 3, 4, 7], m_head = 7, m_tail = 4\<rparr> \<and>
   fifo_pop_list 5 3 \<lparr>fifo_data = [8, 9, 3, 4, 7 :: nat], m_head = 7, m_tail = 4\<rparr>
     = Returns [7, 8, 9] \<lparr>fifo_data = [8, 9, 3, 4, 7], m_head = 2, m_tail = 2\<rparr>"
proof -
  let ?s = "\<lparr>fifo_data = [1, 2, 3, 4, 0 :: nat], m_head = 4, m_tail = 4\<rparr>"
  have h1: "fifo_inv 5 ?s"
    by (simp add: fifo_inv_def cursors_normal_def fifo_size_def)
  have h2: "length [7, 8, 9 :: nat] \<le> unat (fifo_free 5 ?s)"
    by (simp add: fifo_free_def fifo_size_def)
  have h3: "fifo_empty ?s"
    by (simp add: fifo_empty_def)
  have "fifo_push_list 5 [7, 8, 9] ?s
          = Returns () \<lparr>fifo_data = [8, 9, 3, 4, 7], m_head = 7, m_tail = 4\<rparr> \<and>
        fifo_pop_list 5 3 \<lparr>fifo_data = [8, 9, 3, 4, 7 :: nat], m_head = 7, m_tail = 4\<rparr>
          = Returns [7, 8, 9] \<lparr>fifo_data = [8, 9, 3, 4, 7], m_head = 2, m_tail = 2\<rparr>"
    using push_list_pop_list_roundtrip[OF h1 h2] h3 by (simp add: fifo_eval)
  then show ?thesis
    using h1 h2 h3 by blast
qed

section \<open>The two \<open>pop\<close> implementations\<close>

text \<open>
  C10. In every non-empty state reached from a freshly constructed fifo, the \<open>pop\<close> that
  normalises through \<open>increment_tail\<close> and the \<open>pop\<close> that sets the tail to 0 have the same
  outcome: the same element and the same fifo, head and tail included. When no \<open>end()\<close> was
  called on the way, that outcome is a return of the element at the tail.
\<close>

theorem pop_variants_agree:
  assumes len: "length arr = unat Nm"
    and run: "fifo_run Nm ops (fifo_init arr) = Some (rs, s)"
    and ne: "\<not> fifo_empty s"
  shows "fifo_pop_alt Nm s = fifo_pop Nm s \<and>
         ((\<forall>a \<in> set ops. \<not> is_end a) \<longrightarrow>
            (\<exists>s'. fifo_pop Nm s = Returns (fifo_data s ! unat (m_tail s)) s' \<and>
                  fifo_pop_alt Nm s = Returns (fifo_data s ! unat (m_tail s)) s'))"
proof -
  have eq: "fifo_pop_alt Nm s = fifo_pop Nm s"
    by (rule pop_alt_eq)
  have "fifo_size (fifo_init arr) \<le> Nm"
    by (simp add: fifo_size_def fifo_init_def)
  then have le: "fifo_size s \<le> Nm"
    using run by (rule run_size_le)
  have "fifo_size s \<noteq> 0"
    using ne by (simp add: fifo_empty_def fifo_size_def)
  then have nz: "Nm \<noteq> 0"
    using le by auto
  have ret: "\<exists>s'. fifo_pop Nm s = Returns (fifo_data s ! unat (m_tail s)) s'"
    if "\<forall>a \<in> set ops. \<not> is_end a"
  proof -
    have "cursors_normal Nm s"
      using run_cursors_normal[OF init_cursors_normal[OF nz] that run] .
    then have "m_tail s < Nm"
      by (simp add: cursors_normal_def)
    then show ?thesis
      using ne by (simp add: fifo_pop_def not_le)
  qed
  show ?thesis
    using eq ret by auto
qed

theorem pop_variants_agree_witness:
  "length [0, 0, 0 :: nat] = unat (3 :: size_t) \<and>
   fifo_run 3 [Push 1, Push 2, Push 3, Pop, Pop, Push 4] (fifo_init [0, 0, 0 :: nat])
     = Some ([Ret_Unit, Ret_Unit, Ret_Unit, Ret_Elem 1, Ret_Elem 2, Ret_Unit],
             \<lparr>fifo_data = [4, 2, 3], m_head = 4, m_tail = 2\<rparr>) \<and>
   \<not> fifo_empty \<lparr>fifo_data = [4, 2, 3 :: nat], m_head = 4, m_tail = 2\<rparr> \<and>
   fifo_pop 3 \<lparr>fifo_data = [4, 2, 3 :: nat], m_head = 4, m_tail = 2\<rparr>
     = Returns 3 \<lparr>fifo_data = [4, 2, 3], m_head = 1, m_tail = 0\<rparr> \<and>
   fifo_pop_alt 3 \<lparr>fifo_data = [4, 2, 3 :: nat], m_head = 4, m_tail = 2\<rparr>
     = Returns 3 \<lparr>fifo_data = [4, 2, 3], m_head = 1, m_tail = 0\<rparr>"
proof -
  let ?s = "\<lparr>fifo_data = [4, 2, 3 :: nat], m_head = 4, m_tail = 2\<rparr>"
  have h1: "length [0, 0, 0 :: nat] = unat (3 :: size_t)"
    by simp
  have h2: "fifo_run 3 [Push 1, Push 2, Push 3, Pop, Pop, Push 4] (fifo_init [0, 0, 0 :: nat])
     = Some ([Ret_Unit, Ret_Unit, Ret_Unit, Ret_Elem 1, Ret_Elem 2, Ret_Unit], ?s)"
    by (simp add: fifo_eval)
  have h3: "\<not> fifo_empty ?s"
    by (simp add: fifo_empty_def)
  have p: "fifo_pop 3 ?s = Returns 3 \<lparr>fifo_data = [4, 2, 3], m_head = 1, m_tail = 0\<rparr>"
    by (simp add: fifo_eval)
  have "fifo_pop_alt 3 ?s = Returns 3 \<lparr>fifo_data = [4, 2, 3], m_head = 1, m_tail = 0\<rparr>"
    using pop_variants_agree[OF h1 h2 h3] p by simp
  then show ?thesis
    using h1 h2 h3 p by blast
qed

end
